theory Spec2Isabelle
  imports Complex_Main "HOL-Library.AList"
begin

section \<open>Shallow embedding of \<^verbatim>\<open>src/vuex-dash-dpp.js\<close>\<close>

text \<open>
  The plugin keeps a local mirror of documents stored on Dash Platform. The parts of the
  source that are embedded here are: the payload regulator \<^verbatim>\<open>regulatePayload\<close>, the
  actions of a document module (\<^verbatim>\<open>all\<close>, \<^verbatim>\<open>one\<close>, \<^verbatim>\<open>retrieve\<close>, \<^verbatim>\<open>compose\<close>,
  \<^verbatim>\<open>multiple\<close>, \<^verbatim>\<open>create\<close>, \<^verbatim>\<open>replace\<close>, \<^verbatim>\<open>delete\<close>, \<^verbatim>\<open>broadcast\<close>) with its
  mutations, and the lazily initialised account and identity of the plugin's root module.

  A JavaScript object is an association list in insertion order (the order in which
  \<^verbatim>\<open>keys\<close> and \<^verbatim>\<open>each\<close> of lodash visit its own properties); a well-formed object has
  distinct keys. Reading a property is \<^const>\<open>map_of\<close>, assigning one is
  \<^const>\<open>AList.update\<close>. The keys that occur are property names and document
  identifiers, none of which is an array index, so insertion order is the order of
  enumeration.
\<close>

type_synonym 'a obj = "(string \<times> 'a) list"

subsection \<open>The payload regulator\<close>

definition MAX_DOCUMENTS_PER_QUERY :: nat where
  "MAX_DOCUMENTS_PER_QUERY = 100"

definition MAX_KILOBYTES_PER_PAYLOAD :: rat where
  "MAX_KILOBYTES_PER_PAYLOAD = 4"

definition MAX_DOCUMENTS_PER_PAYLOAD :: nat where
  "MAX_DOCUMENTS_PER_PAYLOAD = 10"

text \<open>
  The local variables of \<^verbatim>\<open>regulatePayload\<close>. The source adds
  \<^verbatim>\<open>encoded.length / 1024\<close> to \<^verbatim>\<open>size\<close>, a double; every such quotient is a multiple
  of \<open>1/1024\<close> and the sums stay exact far beyond the budget of 4, so the comparison
  \<^verbatim>\<open>size < 4\<close> is the one on the rational numbers.
\<close>

record 'a reg_state =
  included :: "'a list obj"
  remainder :: "'a list obj"
  size_kb :: rat
  limit :: nat

text \<open>
  \<^verbatim>\<open>included[key]\<close> and \<^verbatim>\<open>remainder[key]\<close> are read only for keys of the payload,
  which \<^verbatim>\<open>zipObject\<close> has put into both objects (lemma \<open>regulatePayload_keys\<close> below),
  so the read never yields \<^verbatim>\<open>undefined\<close>.
\<close>

definition items_at :: "'a list obj \<Rightarrow> string \<Rightarrow> 'a list" where
  "items_at ob key = (case map_of ob key of Some xs \<Rightarrow> xs | None \<Rightarrow> [])"

text \<open>
  The body of the inner \<^verbatim>\<open>each\<close>. The parameter \<open>enc\<close> is the number of bytes of
  \<^verbatim>\<open>new TextEncoder().encode(JSON.stringify(item))\<close>.
\<close>

definition regulate_item :: "('a \<Rightarrow> nat) \<Rightarrow> string \<Rightarrow> 'a reg_state \<Rightarrow> 'a \<Rightarrow> 'a reg_state" where
  "regulate_item enc key st item =
     (let size' = size_kb st + of_nat (enc item) / 1024;
          limit' = limit st + 1
      in if size' < MAX_KILOBYTES_PER_PAYLOAD \<and> limit' \<le> MAX_DOCUMENTS_PER_PAYLOAD
         then st\<lparr>included := AList.update key (items_at (included st) key @ [item]) (included st),
                 size_kb := size', limit := limit'\<rparr>
         else st\<lparr>remainder := AList.update key (items_at (remainder st) key @ [item]) (remainder st),
                 size_kb := size', limit := limit'\<rparr>)"

definition regulatePayload :: "('a \<Rightarrow> nat) \<Rightarrow> 'a list obj \<Rightarrow> 'a list obj \<times> 'a list obj" where
  "regulatePayload enc payload =
     (let payloadKeys = map fst payload;
          payloadValues = replicate (length payloadKeys) [];
          st0 = \<lparr>included = zip payloadKeys payloadValues,
                 remainder = zip payloadKeys payloadValues,
                 size_kb = 0, limit = 0\<rparr>;
          st = foldl (\<lambda>st (key, items). foldl (regulate_item enc key) st items) st0 payload
      in (included st, remainder st))"

text \<open>
  Notions used to state properties of the regulator: the sequence of visits of the two
  nested loops, the items visited under one key, and a state whose budget is used up.
\<close>

definition visits :: "'a list obj \<Rightarrow> (string \<times> 'a) list" where
  "visits payload = concat (map (\<lambda>(key, items). map (Pair key) items) payload)"

definition items_under :: "string \<Rightarrow> (string \<times> 'a) list \<Rightarrow> 'a list" where
  "items_under key vs = map snd (filter (\<lambda>v. fst v = key) vs)"

definition crossed :: "'a reg_state \<Rightarrow> bool" where
  "crossed st = (MAX_KILOBYTES_PER_PAYLOAD \<le> size_kb st \<or> MAX_DOCUMENTS_PER_PAYLOAD \<le> limit st)"

definition regulate_visit :: "('a \<Rightarrow> nat) \<Rightarrow> 'a reg_state \<Rightarrow> string \<times> 'a \<Rightarrow> 'a reg_state" where
  "regulate_visit enc st v = regulate_item enc (fst v) st (snd v)"

text \<open>
  The budget test as a property of the whole sequence of visited items:
  after the \<open>i\<close>-th visit (counted from 0) the cumulative size is the sum of the sizes
  of the first \<open>i + 1\<close> items, over all keys, and the cumulative count is \<open>i + 1\<close>.
  \<open>placed sel key vs\<close> are the items visited under \<open>key\<close> at the positions that
  \<open>sel\<close> selects, in visit order. \<open>fits\<close> is the test of the source on its
  running counters.
\<close>

definition within_budget :: "('a \<Rightarrow> nat) \<Rightarrow> 'a list \<Rightarrow> nat \<Rightarrow> bool" where
  "within_budget enc its i =
     (sum_list (map (\<lambda>item. of_nat (enc item) / 1024) (take (Suc i) its)) < MAX_KILOBYTES_PER_PAYLOAD
      \<and> Suc i \<le> MAX_DOCUMENTS_PER_PAYLOAD)"

definition placed :: "(nat \<Rightarrow> bool) \<Rightarrow> string \<Rightarrow> (string \<times> 'a) list \<Rightarrow> 'a list" where
  "placed sel key vs = map (\<lambda>i. snd (vs ! i)) (filter (\<lambda>i. fst (vs ! i) = key \<and> sel i) [0..<length vs])"

definition fits :: "('a \<Rightarrow> nat) \<Rightarrow> 'a reg_state \<Rightarrow> 'a \<Rightarrow> bool" where
  "fits enc st item = (size_kb st + of_nat (enc item) / 1024 < MAX_KILOBYTES_PER_PAYLOAD
                        \<and> limit st + 1 \<le> MAX_DOCUMENTS_PER_PAYLOAD)"

subsection \<open>The document module\<close>

text \<open>
  Field values of raw items and of stored documents, with JavaScript's truthiness. A
  property that is absent reads as \<^verbatim>\<open>undefined\<close>, which is \<open>None\<close> here.
\<close>

datatype val = VStr string | VNum int | VBool bool | VNull

fun truthy :: "val option \<Rightarrow> bool" where
  "truthy None = False"
| "truthy (Some (VStr s)) = (s \<noteq> [])"
| "truthy (Some (VNum n)) = (n \<noteq> 0)"
| "truthy (Some (VBool b)) = b"
| "truthy (Some VNull) = False"

text \<open>
  A \<^verbatim>\<open>Document\<close> of the Dash SDK, as far as the plugin uses it: \<^verbatim>\<open>toJSON()\<close> yields
  an object that carries the identifier under \<^verbatim>\<open>$id\<close> and then the data fields, spread
  over it (a data field of an earlier name replaces that value, as in an object literal), and
  \<^verbatim>\<open>setData(data)\<close> replaces the data fields. The further system fields of the SDK's
  snapshot (\<^verbatim>\<open>$protocolVersion\<close>, \<^verbatim>\<open>$type\<close>, \<^verbatim>\<open>$dataContractId\<close>, \<^verbatim>\<open>$ownerId\<close>,
  \<^verbatim>\<open>$revision\<close>) are left out: the plugin reads \<^verbatim>\<open>$id\<close> only. Where the source can hold
  \<^verbatim>\<open>undefined\<close> in place of a document, the model has a \<open>doc option\<close>.
\<close>

record doc =
  doc_id :: string
  doc_data :: "val obj"

definition toJSON :: "doc \<Rightarrow> val obj" where
  "toJSON d = foldl (\<lambda>json (key, value). AList.update key value json)
                     [(''$id'', VStr (doc_id d))] (doc_data d)"

definition setData :: "doc \<Rightarrow> val obj \<Rightarrow> doc" where
  "setData d data = d\<lparr>doc_data := data\<rparr>"

text \<open>
  Queries are objects too: \<^verbatim>\<open>startAt\<close> and \<^verbatim>\<open>limit\<close> are numbers, \<^verbatim>\<open>where\<close> is a list
  of conditions (field, operator, value). A batch is an object of lists of documents. Every
  call of a remote capability is recorded.
\<close>

datatype qval = QNum nat | QVal val | QWhere "(string \<times> string \<times> val) list"

type_synonym query = "qval obj"

type_synonym batch = "doc option list obj"

datatype call = Get query | Create "val obj" | Broadcast batch

text \<open>
  The remote capabilities (\<^verbatim>\<open>client.platform.documents.get\<close>, \<^verbatim>\<open>.create\<close> and
  \<^verbatim>\<open>.broadcast\<close>) are arbitrary deterministic functions of the calls made so far and of
  the argument; \<open>None\<close> (for \<^verbatim>\<open>broadcast\<close>: \<open>False\<close>) means that the call throws. An
  action either resolves (\<open>Inr\<close>) or rejects (\<open>Inl\<close>); it runs on a \<open>world\<close>: the local
  mirror \<^verbatim>\<open>state.documents\<close> of the document module and the record of remote calls.
  Raw items and queries are JSON data, which \<^verbatim>\<open>JSON.stringify\<close> serialises without
  throwing, and the getter \<^verbatim>\<open>client\<close> is taken to return a client.

  The JavaScript engine enters the model through its call stack: \<open>frames\<close> is the number
  of times an action can re-enter itself synchronously before the stack is exhausted, and
  \<open>caught\<close> tells whether the RangeError of an exhausted stack arises where the handler
  of the action catches it and can log it (the action then returns through its last line)
  or escapes the handler (the action then rejects with the RangeError).
\<close>

datatype error = TypeError | RemoteError | RangeError

record engine =
  frames :: nat
  caught :: bool

definition out_of_stack :: "engine \<Rightarrow> error + bool" where
  "out_of_stack eg = (if caught eg then Inr False else Inl RangeError)"

record remote =
  documents_get :: "call list \<Rightarrow> query \<Rightarrow> doc list option"
  documents_create :: "call list \<Rightarrow> val obj \<Rightarrow> doc option"
  documents_broadcast :: "call list \<Rightarrow> batch \<Rightarrow> bool"

record world =
  documents :: "val obj obj"
  calls :: "call list"

text \<open>
  The mutations \<^verbatim>\<open>all\<close>, \<^verbatim>\<open>one\<close> and \<^verbatim>\<open>remove\<close> of a document module. The last two
  call \<^verbatim>\<open>payload.toJSON()\<close>, which throws a TypeError on \<^verbatim>\<open>undefined\<close>.
\<close>

definition commit_all :: "doc list \<Rightarrow> world \<Rightarrow> world" where
  "commit_all payload w =
     w\<lparr>documents := foldl (\<lambda>result d. AList.update (doc_id d) (toJSON d) result) [] payload\<rparr>"

definition commit_one :: "doc option \<Rightarrow> world \<Rightarrow> error + world" where
  "commit_one payload w =
     (case payload of
        None \<Rightarrow> Inl TypeError
      | Some d \<Rightarrow> Inr (w\<lparr>documents := AList.update (doc_id d) (toJSON d) (documents w)\<rparr>))"

definition commit_remove :: "doc option \<Rightarrow> world \<Rightarrow> error + world" where
  "commit_remove payload w =
     (case payload of
        None \<Rightarrow> Inl TypeError
      | Some d \<Rightarrow> Inr (w\<lparr>documents := AList.delete (doc_id d) (documents w)\<rparr>))"

text \<open>
  The actions \<^verbatim>\<open>retrieve\<close>, \<^verbatim>\<open>one\<close> and \<^verbatim>\<open>compose\<close>. Only \<^verbatim>\<open>compose\<close> has a
  \<^verbatim>\<open>try\<close>/\<^verbatim>\<open>catch\<close>; it returns \<^verbatim>\<open>undefined\<close> when the remote call throws.
\<close>

definition retrieve :: "remote \<Rightarrow> query \<Rightarrow> world \<Rightarrow> (error + doc list) \<times> world" where
  "retrieve rm payload w =
     (case documents_get rm (calls w) payload of
        None \<Rightarrow> (Inl RemoteError, w\<lparr>calls := calls w @ [Get payload]\<rparr>)
      | Some ds \<Rightarrow> (Inr ds, w\<lparr>calls := calls w @ [Get payload]\<rparr>))"

definition head :: "'a list \<Rightarrow> 'a option" where
  "head xs = (case xs of [] \<Rightarrow> None | x # _ \<Rightarrow> Some x)"

definition one_action :: "remote \<Rightarrow> val \<Rightarrow> world \<Rightarrow> (error + doc option) \<times> world" where
  "one_action rm payload w =
     (case retrieve rm [(''where'', QWhere [(''$id'', ''=='', payload)])] w of
        (Inl e, w1) \<Rightarrow> (Inl e, w1)
      | (Inr ds, w1) \<Rightarrow>
          (let one = head ds
           in case commit_one one w1 of
                Inl e \<Rightarrow> (Inl e, w1)
              | Inr w2 \<Rightarrow> (Inr one, w2)))"

definition compose :: "remote \<Rightarrow> val obj \<Rightarrow> world \<Rightarrow> (error + doc option) \<times> world" where
  "compose rm payload w =
     (case documents_create rm (calls w) payload of
        Some composed \<Rightarrow> (Inr (Some composed), w\<lparr>calls := calls w @ [Create payload]\<rparr>)
      | None \<Rightarrow> (Inr None, w\<lparr>calls := calls w @ [Create payload]\<rparr>))"

text \<open>
  The action \<^verbatim>\<open>broadcast\<close>. \<^verbatim>\<open>JSON.stringify\<close> of a document serialises its
  \<^verbatim>\<open>toJSON()\<close>, and \<^verbatim>\<open>encode(undefined)\<close> is the empty byte sequence. The test
  \<^verbatim>\<open>x.create.length || x.replace.length || x.delete.length\<close> evaluates from left to right,
  stops at the first non-empty list, and throws a TypeError (\<open>None\<close>) when it reaches a key
  that the object lacks. The whole body is inside \<^verbatim>\<open>try\<close>: an exception of the
  regulator, of the length tests or of the awaited submission makes the action return
  \<^verbatim>\<open>false\<close>. The action calls itself on the remainder in two ways. After a submission
  the \<^verbatim>\<open>await\<close> has given up the stack, and the call starts on a fresh one. Without a
  submission no \<^verbatim>\<open>await\<close> is reached and \<^verbatim>\<open>dispatch\<close> runs the action's body at once, on
  top of the calling frame: \<open>depth\<close> is the number of such re-entries the stack still
  admits, and at \<open>depth = 0\<close> the stack is exhausted. The function is introduced as a
  partial one; that every call returns is lemma \<open>broadcast_settles\<close> below.
\<close>

definition enc_doc :: "(val obj \<Rightarrow> nat) \<Rightarrow> doc option \<Rightarrow> nat" where
  "enc_doc enc d = (case d of None \<Rightarrow> 0 | Some d \<Rightarrow> enc (toJSON d))"

definition any_length :: "batch \<Rightarrow> bool option" where
  "any_length b =
     (case map_of b ''create'' of
        None \<Rightarrow> None
      | Some c \<Rightarrow>
          if c \<noteq> [] then Some True
          else (case map_of b ''replace'' of
                  None \<Rightarrow> None
                | Some r \<Rightarrow>
                    if r \<noteq> [] then Some True
                    else (case map_of b ''delete'' of
                            None \<Rightarrow> None
                          | Some d \<Rightarrow> Some (d \<noteq> []))))"

partial_function (option) broadcast ::
  "remote \<Rightarrow> (val obj \<Rightarrow> nat) \<Rightarrow> engine \<Rightarrow> nat \<Rightarrow> batch \<Rightarrow> world
     \<Rightarrow> ((error + bool) \<times> world) option" where
  "broadcast rm enc eg depth payload w =
     (case regulatePayload (enc_doc enc) payload of
        (included', remainder') \<Rightarrow>
          (case any_length included' of
             None \<Rightarrow> Some (Inr False, w)
           | Some submit \<Rightarrow>
               if submit then
                 (if documents_broadcast rm (calls w) included' then
                    (case any_length remainder' of
                       None \<Rightarrow> Some (Inr False, w\<lparr>calls := calls w @ [Broadcast included']\<rparr>)
                     | Some again \<Rightarrow>
                         if again
                         then broadcast rm enc eg (frames eg) remainder'
                                (w\<lparr>calls := calls w @ [Broadcast included']\<rparr>)
                         else Some (Inr True, w\<lparr>calls := calls w @ [Broadcast included']\<rparr>))
                  else Some (Inr False, w\<lparr>calls := calls w @ [Broadcast included']\<rparr>))
               else
                 (case any_length remainder' of
                    None \<Rightarrow> Some (Inr False, w)
                  | Some again \<Rightarrow>
                      if again
                      then (if depth = 0 then Some (out_of_stack eg, w)
                            else broadcast rm enc eg (depth - 1) remainder' w)
                      else Some (Inr True, w))))"

text \<open>
  The action \<^verbatim>\<open>multiple\<close>. Its \<^verbatim>\<open>for await\<close> loop is \<open>plan\<close>; the loop, the
  broadcast and the commits are inside one \<^verbatim>\<open>try\<close>, whose \<^verbatim>\<open>catch\<close> logs and lets the
  action return \<^verbatim>\<open>undefined\<close>; a broadcast that rejects is awaited inside that
  \<^verbatim>\<open>try\<close>. The call of \<^verbatim>\<open>regulatePayload\<close> precedes the \<^verbatim>\<open>try\<close>; on the JSON data
  of the model it does not throw. The source tests \<^verbatim>\<open>remainder.length\<close>, a property
  read on the object that \<^verbatim>\<open>regulatePayload\<close> returns.
\<close>

datatype answer = Undefined | Boolean bool

definition id_of :: "val obj \<Rightarrow> val" where
  "id_of item = (case map_of item ''$id'' of Some v \<Rightarrow> v | None \<Rightarrow> VNull)"

definition startsWith :: "string \<Rightarrow> string \<Rightarrow> bool" where
  "startsWith s target = (take (length target) s = target)"

definition pickBy :: "'a obj \<Rightarrow> ('a \<Rightarrow> string \<Rightarrow> bool) \<Rightarrow> 'a obj" where
  "pickBy ob predicate = filter (\<lambda>(key, value). predicate value key) ob"

definition push :: "string \<Rightarrow> 'a \<Rightarrow> 'a list obj \<Rightarrow> 'a list obj" where
  "push key x ob = AList.update key (items_at ob key @ [x]) ob"

fun plan :: "remote \<Rightarrow> val obj list \<Rightarrow> batch \<Rightarrow> world \<Rightarrow> (error + batch) \<times> world" where
  "plan rm [] documents' w = (Inr documents', w)"
| "plan rm (item # items) documents' w =
     (if map fst item = [''$id''] then
        (case one_action rm (id_of item) w of
           (Inl e, w1) \<Rightarrow> (Inl e, w1)
         | (Inr deleted, w1) \<Rightarrow> plan rm items (push ''delete'' deleted documents') w1)
      else if truthy (map_of item ''$id'') then
        (case one_action rm (id_of item) w of
           (Inl e, w1) \<Rightarrow> (Inl e, w1)
         | (Inr None, w1) \<Rightarrow> (Inl TypeError, w1)
         | (Inr (Some replaced), w1) \<Rightarrow>
             plan rm items
               (push ''replace''
                  (Some (setData replaced (pickBy item (\<lambda>value key. \<not> startsWith key ''$''))))
                  documents') w1)
      else
        (case compose rm item w of
           (Inl e, w1) \<Rightarrow> (Inl e, w1)
         | (Inr created, w1) \<Rightarrow> plan rm items (push ''create'' created documents') w1))"

fun each_commit :: "(doc option \<Rightarrow> world \<Rightarrow> error + world) \<Rightarrow> doc option list \<Rightarrow> world
                      \<Rightarrow> error option \<times> world" where
  "each_commit mutation [] w = (None, w)"
| "each_commit mutation (d # ds) w =
     (case mutation d w of
        Inl e \<Rightarrow> (Some e, w)
      | Inr w1 \<Rightarrow> each_commit mutation ds w1)"

partial_function (option) multiple ::
  "remote \<Rightarrow> (val obj \<Rightarrow> nat) \<Rightarrow> engine \<Rightarrow> val obj list \<Rightarrow> world
     \<Rightarrow> ((error + answer) \<times> world) option" where
  "multiple rm enc eg payload w =
     (case regulatePayload enc [(''items'', payload)] of
        (included', remainder') \<Rightarrow>
          (case plan rm (items_at included' ''items'')
                  [(''create'', []), (''replace'', []), (''delete'', [])] w of
             (Inl e, w1) \<Rightarrow> Some (Inr Undefined, w1)
           | (Inr documents', w1) \<Rightarrow>
               (case broadcast rm enc eg (frames eg) documents' w1 of
                  None \<Rightarrow> None
                | Some (Inl e, w2) \<Rightarrow> Some (Inr Undefined, w2)
                | Some (Inr success, w2) \<Rightarrow>
                    if success then
                      (case each_commit commit_one
                              (items_at documents' ''create'' @ items_at documents' ''replace'') w2 of
                         (Some e, w3) \<Rightarrow> Some (Inr Undefined, w3)
                       | (None, w3) \<Rightarrow>
                           (case each_commit commit_remove (items_at documents' ''delete'') w3 of
                              (Some e, w4) \<Rightarrow> Some (Inr Undefined, w4)
                            | (None, w4) \<Rightarrow>
                                if map_of remainder' ''length'' \<noteq> None
                                then multiple rm enc eg (items_at remainder' ''items'') w4
                                else Some (Inr (Boolean True), w4)))
                    else Some (Inr Undefined, w2))))"

text \<open>
  The actions \<^verbatim>\<open>create\<close>, \<^verbatim>\<open>replace\<close> and \<^verbatim>\<open>delete\<close>, each inside one \<^verbatim>\<open>try\<close>.
\<close>

definition create_action ::
  "remote \<Rightarrow> (val obj \<Rightarrow> nat) \<Rightarrow> engine \<Rightarrow> val obj \<Rightarrow> world
     \<Rightarrow> ((error + answer) \<times> world) option" where
  "create_action rm enc eg payload w =
     (case compose rm payload w of
        (Inl e, w1) \<Rightarrow> Some (Inr Undefined, w1)
      | (Inr created, w1) \<Rightarrow>
          (case broadcast rm enc eg (frames eg) [(''create'', [created])] w1 of
             None \<Rightarrow> None
           | Some (Inl e, w2) \<Rightarrow> Some (Inr Undefined, w2)
           | Some (Inr success, w2) \<Rightarrow>
               if success then
                 (case commit_one created w2 of
                    Inl e \<Rightarrow> Some (Inr Undefined, w2)
                  | Inr w3 \<Rightarrow> Some (Inr Undefined, w3))
               else Some (Inr Undefined, w2)))"



text \<open>
  The action \<^verbatim>\<open>all\<close>: the \<^verbatim>\<open>while\<close> loop with its two variables, then the commit.
  \<open>page_query\<close> is the object \<^verbatim>\<open>{...options.allQuery, startAt: ..., limit: ...}\<close>. There
  is no \<^verbatim>\<open>try\<close>.
\<close>

definition page_query :: "query \<Rightarrow> nat \<Rightarrow> query" where
  "page_query allQuery page =
     AList.update ''limit'' (QNum MAX_DOCUMENTS_PER_QUERY)
       (AList.update ''startAt'' (QNum (page * MAX_DOCUMENTS_PER_QUERY)) allQuery)"

partial_function (option) all_while ::
  "remote \<Rightarrow> query \<Rightarrow> doc list \<Rightarrow> nat \<Rightarrow> world \<Rightarrow> ((error + doc list) \<times> world) option" where
  "all_while rm allQuery all page w =
     (if length all \<ge> page * MAX_DOCUMENTS_PER_QUERY then
        (case retrieve rm (page_query allQuery page) w of
           (Inl e, w1) \<Rightarrow> Some (Inl e, w1)
         | (Inr ds, w1) \<Rightarrow> all_while rm allQuery (all @ ds) (page + 1) w1)
      else Some (Inr all, commit_all all w))"

definition all_action :: "remote \<Rightarrow> query \<Rightarrow> world \<Rightarrow> ((error + doc list) \<times> world) option" where
  "all_action rm allQuery w = all_while rm allQuery [] 0 w"

subsection \<open>Notions used in the statements about \<^verbatim>\<open>broadcast\<close>\<close>

text \<open>
  An operation set is an object with exactly the three keys \<^verbatim>\<open>create\<close>, \<^verbatim>\<open>replace\<close> and
  \<^verbatim>\<open>delete\<close>; a batch is non-empty when one of the three lists is.
\<close>

definition is_operation_set :: "batch \<Rightarrow> bool" where
  "is_operation_set p
     = (distinct (map fst p) \<and> set (map fst p) \<subseteq> {''create'', ''replace'', ''delete''}
        \<and> {''create'', ''replace'', ''delete''} \<subseteq> set (map fst p))"

definition nonempty_batch :: "batch \<Rightarrow> bool" where
  "nonempty_batch p
     = (items_at p ''create'' \<noteq> [] \<or> items_at p ''replace'' \<noteq> [] \<or> items_at p ''delete'' \<noteq> [])"

text \<open>
  Three stored documents, a remote whose second call throws, and a remote that accepts
  every broadcast, composes a document from the fields it is given (the identifier is the
  \<^verbatim>\<open>name\<close> field) and retrieves those of the three documents whose identifier the
  conditions of the query mention; then the same remote with a query that throws, and with
  a composition that throws for the name \<^verbatim>\<open>y\<close>. Last, an engine whose stack admits ten thousand re-entries and
  whose RangeError escapes the handler.
\<close>

definition doc_A :: doc where "doc_A = \<lparr>doc_id = ''A'', doc_data = [(''name'', VStr ''a'')]\<rparr>"
definition doc_B :: doc where "doc_B = \<lparr>doc_id = ''B'', doc_data = [(''name'', VStr ''b'')]\<rparr>"
definition doc_C :: doc where "doc_C = \<lparr>doc_id = ''C'', doc_data = [(''name'', VStr ''c'')]\<rparr>"

definition failing_second :: remote where
  "failing_second = \<lparr>documents_get = (\<lambda>hist q. None), documents_create = (\<lambda>hist fs. None),
                      documents_broadcast = (\<lambda>hist b. length hist \<noteq> 1)\<rparr>"

definition name_of :: "val obj \<Rightarrow> string" where
  "name_of fs = (case map_of fs ''name'' of Some (VStr s) \<Rightarrow> s | _ \<Rightarrow> [])"

definition ids_asked :: "query \<Rightarrow> val list" where
  "ids_asked q = (case map_of q ''where'' of
                    Some (QWhere conditions) \<Rightarrow> map (\<lambda>(field, operator, v). v) conditions
                  | _ \<Rightarrow> [])"

definition accepting :: remote where
  "accepting = \<lparr>documents_get = (\<lambda>hist q. Some (filter (\<lambda>d. VStr (doc_id d) \<in> set (ids_asked q))
                                                    [doc_A, doc_B, doc_C])),
                 documents_create = (\<lambda>hist fs. Some \<lparr>doc_id = name_of fs, doc_data = fs\<rparr>),
                 documents_broadcast = (\<lambda>hist b. True)\<rparr>"



definition deep_stack :: engine where
  "deep_stack = \<lparr>frames = 10000, caught = False\<rparr>"

subsection \<open>Notions used in the statements about the action \<^verbatim>\<open>all\<close>\<close>

text \<open>
  When the remote answers the \<open>i\<close>-th query of the loop with \<open>pages i\<close>, the first \<open>n\<close>
  answers together are \<open>fetched pages n\<close>, and the first \<open>n\<close> queries of the loop are
  \<open>queried allQuery n\<close>.
\<close>

definition fetched :: "(nat \<Rightarrow> doc list) \<Rightarrow> nat \<Rightarrow> doc list" where
  "fetched pages n = concat (map pages [0..<n])"

definition queried :: "query \<Rightarrow> nat \<Rightarrow> call list" where
  "queried allQuery n = map (\<lambda>page. Get (page_query allQuery page)) [0..<n]"


text \<open>
  A remote with 101 documents: it answers the query that starts at 0 with a full page and
  every other query with the one document that is left.
\<close>

definition paging :: remote where
  "paging = \<lparr>documents_get = (\<lambda>hist q. if map_of q ''startAt'' = Some (QNum 0)
                                         then Some (replicate 100 doc_A) else Some [doc_B]),
              documents_create = (\<lambda>hist fs. None),
              documents_broadcast = (\<lambda>hist b. True)\<rparr>"

subsection \<open>Notions used in the statements about the action \<^verbatim>\<open>multiple\<close>\<close>

text \<open>
  The three kinds of raw items as the planner's description distinguishes them, the query
  by which an item is looked up, and what a planned document is with respect to the raw
  item it stems from: the document found for a deletion, the document found with its data
  set to the fields of the raw item whose key does not begin with \<^verbatim>\<open>$\<close> for a
  replacement, and whatever the remote composed from the item (\<open>None\<close> if it threw) for
  a creation.
\<close>

datatype kind = Delete | Replace | Create'

definition classify :: "val obj \<Rightarrow> kind" where
  "classify item = (if map fst item = [''$id''] then Delete
                    else if truthy (map_of item ''$id'') then Replace
                    else Create')"

definition id_query :: "val obj \<Rightarrow> query" where
  "id_query item = [(''where'', QWhere [(''$id'', ''=='', id_of item)])]"

definition looked_up :: "remote \<Rightarrow> val obj \<Rightarrow> doc option \<Rightarrow> bool" where
  "looked_up rm item d
     = (\<exists>hist ds found. documents_get rm hist (id_query item) = Some ds
                          \<and> head ds = Some found \<and> d = Some found)"

definition updated :: "remote \<Rightarrow> val obj \<Rightarrow> doc option \<Rightarrow> bool" where
  "updated rm item d
     = (\<exists>hist ds found. documents_get rm hist (id_query item) = Some ds
                          \<and> head ds = Some found
                          \<and> d = Some (setData found (filter (\<lambda>(key, value). take 1 key \<noteq> ''$'') item)))"

definition composed :: "remote \<Rightarrow> val obj \<Rightarrow> doc option \<Rightarrow> bool" where
  "composed rm item d = (\<exists>hist. d = documents_create rm hist item)"


subsection \<open>The lazily initialised account and identity\<close>

text \<open>
  The state of the plugin's root module, as far as the account and the identity go. The
  fields up to \<open>identityRegistering\<close> are those of the source (\<open>mnemonic\<close> and
  \<open>identityId\<close> are the two options that arm the triggers). \<^verbatim>\<open>state.account\<close> is
  \<^verbatim>\<open>null\<close> or a function that returns the account; \<^verbatim>\<open>state.accountInit\<close> is
  \<^verbatim>\<open>null\<close> or the function \<^verbatim>\<open>once(() => dispatch("accountInit"))\<close>, whose only state is
  whether it has been called; \<^verbatim>\<open>state.accountSynced\<close> is \<^verbatim>\<open>false\<close> or a value of
  \<^verbatim>\<open>Date.now()\<close>. The remaining fields record what the source does outside the store:
  how many \<^verbatim>\<open>accountInit\<close> and \<^verbatim>\<open>identityInit\<close> actions wait for their remote fetch,
  how many \<^verbatim>\<open>TRANSACTION\<close> listeners are registered, the remote fetches made, and every
  time stamp committed to \<^verbatim>\<open>accountSynced\<close> or \<^verbatim>\<open>identitySynced\<close>.
\<close>

datatype resource = Account | Identity

datatype fetch = GetWalletAccount | IdentitiesGet "val option"

record ('a, 'i) root =
  mnemonic :: "val option"
  identityId :: "val option"
  account :: "'a option"
  accountInit :: "bool option"
  accountSynced :: "nat option"
  accountSyncing :: bool
  identity :: "'i option"
  identityInit :: "bool option"
  identitySynced :: "nat option"
  identitySyncing :: bool
  identityRegistering :: bool
  awaiting_account :: nat
  awaiting_identity :: nat
  listeners :: nat
  remote_fetches :: "fetch list"
  stamps :: "(resource \<times> nat) list"

text \<open>
  The action \<^verbatim>\<open>init\<close>, and the actions \<^verbatim>\<open>accountInit\<close> and \<^verbatim>\<open>identityInit\<close>, each in
  two parts: up to the \<^verbatim>\<open>await\<close> of the remote fetch, and from the moment the fetch
  settles (\<open>None\<close>: it threw) at time \<open>now\<close>. \<open>transaction\<close> is the listener that
  \<^verbatim>\<open>accountInit\<close> registers on the account.
\<close>

definition stamped :: "nat option \<Rightarrow> bool" where
  "stamped synced = (case synced of None \<Rightarrow> False | Some t \<Rightarrow> t \<noteq> 0)"

definition init_action :: "('a, 'i) root \<Rightarrow> ('a, 'i) root" where
  "init_action s =
     s\<lparr>account := None, accountSynced := None, accountSyncing := False,
       identity := None, identitySynced := None, identitySyncing := False,
       identityRegistering := False,
       accountInit := (if truthy (mnemonic s) then Some False else None),
       identityInit := (if truthy (identityId s) then Some False else None)\<rparr>"

definition accountInit_dispatch :: "('a, 'i) root \<Rightarrow> ('a, 'i) root" where
  "accountInit_dispatch s =
     s\<lparr>accountSyncing := True,
       remote_fetches := remote_fetches s @ [GetWalletAccount],
       awaiting_account := awaiting_account s + 1\<rparr>"

definition accountInit_settle :: "'a option \<Rightarrow> nat \<Rightarrow> ('a, 'i) root \<Rightarrow> ('a, 'i) root" where
  "accountInit_settle fetched_account now s =
     (if awaiting_account s = 0 then s
      else (case fetched_account of
              Some a \<Rightarrow>
                s\<lparr>listeners := listeners s + 1,
                  account := Some a, accountInit := None,
                  accountSynced := Some now, stamps := stamps s @ [(Account, now)],
                  accountSyncing := False, awaiting_account := awaiting_account s - 1\<rparr>
            | None \<Rightarrow>
                s\<lparr>accountSyncing := False, awaiting_account := awaiting_account s - 1\<rparr>))"

definition transaction :: "nat \<Rightarrow> ('a, 'i) root \<Rightarrow> ('a, 'i) root" where
  "transaction now s =
     (if listeners s = 0 then s
      else s\<lparr>accountSynced := Some now,
             stamps := stamps s @ replicate (listeners s) (Account, now)\<rparr>)"

definition identityInit_dispatch :: "('a, 'i) root \<Rightarrow> ('a, 'i) root" where
  "identityInit_dispatch s =
     s\<lparr>identitySyncing := True,
       remote_fetches := remote_fetches s @ [IdentitiesGet (identityId s)],
       awaiting_identity := awaiting_identity s + 1\<rparr>"

definition identityInit_settle :: "'i option \<Rightarrow> nat \<Rightarrow> ('a, 'i) root \<Rightarrow> ('a, 'i) root" where
  "identityInit_settle fetched_identity now s =
     (if awaiting_identity s = 0 then s
      else (case fetched_identity of
              Some i \<Rightarrow>
                s\<lparr>identity := Some i, identityInit := None,
                  identitySynced := Some now, stamps := stamps s @ [(Identity, now)],
                  identitySyncing := False, awaiting_identity := awaiting_identity s - 1\<rparr>
            | None \<Rightarrow>
                s\<lparr>identitySyncing := False, awaiting_identity := awaiting_identity s - 1\<rparr>))"

text \<open>
  The getters \<^verbatim>\<open>account\<close> and \<^verbatim>\<open>identity\<close>: they return the resource once it is there
  and synced, and otherwise call the trigger, if there is one, and return \<^verbatim>\<open>null\<close>.
  Here every read evaluates the getter function; a store that caches the value of a getter
  evaluates it less often.
\<close>

definition account_getter :: "('a, 'i) root \<Rightarrow> 'a option \<times> ('a, 'i) root" where
  "account_getter s =
     (if account s \<noteq> None \<and> stamped (accountSynced s) then (account s, s)
      else (None,
            case accountInit s of
              None \<Rightarrow> s
            | Some called \<Rightarrow>
                if called then s else accountInit_dispatch (s\<lparr>accountInit := Some True\<rparr>)))"

definition identity_getter :: "('a, 'i) root \<Rightarrow> 'i option \<times> ('a, 'i) root" where
  "identity_getter s =
     (if identity s \<noteq> None \<and> stamped (identitySynced s) then (identity s, s)
      else (None,
            if truthy (identityId s) then
              (case identityInit s of
                 None \<Rightarrow> s
               | Some called \<Rightarrow>
                   if called then s else identityInit_dispatch (s\<lparr>identityInit := Some True\<rparr>))
            else s))"

text \<open>
  What can happen to the root module, one after the other: the getters are read, a pending
  fetch settles, the account reports a transaction, \<^verbatim>\<open>init\<close> is dispatched.
\<close>

datatype ('a, 'i) event =
    ReadAccount | ReadIdentity
  | AccountSettled "'a option" nat | IdentitySettled "'i option" nat
  | Transaction nat | Init

fun step :: "('a, 'i) root \<Rightarrow> ('a, 'i) event \<Rightarrow> ('a, 'i) root" where
  "step s ReadAccount = snd (account_getter s)"
| "step s ReadIdentity = snd (identity_getter s)"
| "step s (AccountSettled r now) = accountInit_settle r now s"
| "step s (IdentitySettled r now) = identityInit_settle r now s"
| "step s (Transaction now) = transaction now s"
| "step s Init = init_action s"

definition run :: "('a, 'i) event list \<Rightarrow> ('a, 'i) root \<Rightarrow> ('a, 'i) root" where
  "run es s = foldl step s es"



text \<open>
  A freshly registered module with both options set.
\<close>

definition fresh :: "(string, string) root" where
  "fresh = \<lparr>mnemonic = Some (VStr ''abandon ability able''), identityId = Some (VStr ''Bob''),
             account = None, accountInit = None, accountSynced = None, accountSyncing = False,
             identity = None, identityInit = None, identitySynced = None, identitySyncing = False,
             identityRegistering = False, awaiting_account = 0, awaiting_identity = 0,
             listeners = 0, remote_fetches = [], stamps = []\<rparr>"

section \<open>Properties of the payload regulator\<close>

lemma nested_each_visits:
  "foldl (\<lambda>st (key, items). foldl (regulate_item enc key) st items) st payload
     = foldl (regulate_visit enc) st (visits payload)"
proof (induction payload arbitrary: st)
  case Nil
  show ?case by (simp add: visits_def)
next
  case (Cons p payload)
  obtain key items where p: "p = (key, items)" by (cases p)
  have inner: "foldl (regulate_visit enc) st (map (Pair key) items)
                 = foldl (regulate_item enc key) st items" for st
    by (induction items arbitrary: st) (simp_all add: regulate_visit_def)
  show ?case
    using Cons.IH by (simp add: p visits_def inner)
qed

lemma regulate_item_keys:
  assumes "key \<in> set (map fst (included st))" "key \<in> set (map fst (remainder st))"
  shows "map fst (included (regulate_item enc key st item)) = map fst (included st)"
    and "map fst (remainder (regulate_item enc key st item)) = map fst (remainder st)"
  using assms by (simp_all add: regulate_item_def Let_def update_keys)

lemma regulate_visits_keys:
  assumes "fst ` set vs \<subseteq> set (map fst (included st))"
      and "map fst (remainder st) = map fst (included st)"
  shows "map fst (included (foldl (regulate_visit enc) st vs)) = map fst (included st)
       \<and> map fst (remainder (foldl (regulate_visit enc) st vs)) = map fst (included st)"
  using assms
proof (induction vs arbitrary: st)
  case Nil
  then show ?case by simp
next
  case (Cons v vs)
  let ?st = "regulate_visit enc st v"
  have k: "fst v \<in> set (map fst (included st))" "fst v \<in> set (map fst (remainder st))"
    using Cons.prems by auto
  have i: "map fst (included ?st) = map fst (included st)"
    and r: "map fst (remainder ?st) = map fst (remainder st)"
    using regulate_item_keys [OF k] by (simp_all add: regulate_visit_def)
  have "map fst (included (foldl (regulate_visit enc) ?st vs)) = map fst (included ?st)
       \<and> map fst (remainder (foldl (regulate_visit enc) ?st vs)) = map fst (included ?st)"
    using Cons.prems by (intro Cons.IH) (auto simp: i r)
  then show ?case by (simp add: i)
qed

lemma visits_keys: "fst ` set (visits payload) \<subseteq> set (map fst payload)"
  by (force simp: visits_def)

lemma zip_replicate_keys: "map fst (zip ks (replicate (length ks) v)) = ks"
  by (simp add: map_fst_zip)

lemma map_of_zip_replicate_Some:
  "map_of (zip ks (replicate (length ks) v)) k = Some x \<Longrightarrow> x = v"
  by (induction ks) (auto split: if_splits)

lemma map_of_zip_replicate:
  "k \<in> set ks \<Longrightarrow> map_of (zip ks (replicate (length ks) v)) k = Some v"
  by (induction ks) auto

lemma regulatePayload_keys:
  "map fst (fst (regulatePayload enc payload)) = map fst payload"
  "map fst (snd (regulatePayload enc payload)) = map fst payload"
  using regulate_visits_keys [of "visits payload"
      "\<lparr>included = zip (map fst payload) (replicate (length (map fst payload)) []),
        remainder = zip (map fst payload) (replicate (length (map fst payload)) []),
        size_kb = 0, limit = 0\<rparr>" enc] visits_keys [of payload]
  by (simp_all add: regulatePayload_def Let_def nested_each_visits map_fst_zip)

lemma regulate_step_split:
  assumes "key \<in> set (map fst (included st))" "key \<in> set (map fst (remainder st))"
      and "crossed st \<or> (\<forall>k. items_at (remainder st) k = [])"
  shows "items_at (included (regulate_item enc key st item)) k
           @ items_at (remainder (regulate_item enc key st item)) k
         = items_at (included st) k @ items_at (remainder st) k @ (if k = key then [item] else [])"
    and "crossed (regulate_item enc key st item)
           \<or> (\<forall>k. items_at (remainder (regulate_item enc key st item)) k = [])"
  using assms
  by (auto simp: regulate_item_def Let_def items_at_def update_conv' crossed_def
        MAX_KILOBYTES_PER_PAYLOAD_def MAX_DOCUMENTS_PER_PAYLOAD_def)

lemma regulate_visits_split:
  assumes "fst ` set vs \<subseteq> set (map fst (included st))"
      and "map fst (remainder st) = map fst (included st)"
      and "crossed st \<or> (\<forall>k. items_at (remainder st) k = [])"
  shows "items_at (included (foldl (regulate_visit enc) st vs)) k
           @ items_at (remainder (foldl (regulate_visit enc) st vs)) k
         = items_at (included st) k @ items_at (remainder st) k @ items_under k vs"
  using assms
proof (induction vs arbitrary: st)
  case Nil
  then show ?case by (simp add: items_under_def)
next
  case (Cons v vs)
  let ?st = "regulate_visit enc st v"
  have k: "fst v \<in> set (map fst (included st))" "fst v \<in> set (map fst (remainder st))"
    using Cons.prems by auto
  have keys: "map fst (included ?st) = map fst (included st)"
             "map fst (remainder ?st) = map fst (remainder st)"
    using regulate_item_keys [OF k] by (simp_all add: regulate_visit_def)
  have step: "items_at (included ?st) k @ items_at (remainder ?st) k
         = items_at (included st) k @ items_at (remainder st) k @ (if k = fst v then [snd v] else [])"
    and inv: "crossed ?st \<or> (\<forall>k. items_at (remainder ?st) k = [])"
    using regulate_step_split [OF k Cons.prems(3)] by (simp_all add: regulate_visit_def)
  have "items_at (included (foldl (regulate_visit enc) ?st vs)) k
           @ items_at (remainder (foldl (regulate_visit enc) ?st vs)) k
         = items_at (included ?st) k @ items_at (remainder ?st) k @ items_under k vs"
    using Cons.prems inv by (intro Cons.IH) (auto simp: keys)
  then show ?case
    using step by (auto simp: items_under_def)
qed

lemma items_under_visits:
  assumes "distinct (map fst payload)" "(key, items) \<in> set payload"
  shows "items_under key (visits payload) = items"
  using assms
proof (induction payload)
  case Nil
  then show ?case by simp
next
  case (Cons p payload)
  have other: "items_under key (map (Pair k') xs) = (if k' = key then xs else [])" for k' xs
    by (induction xs) (auto simp: items_under_def)
  have absent: "key \<notin> fst ` set payload \<Longrightarrow> items_under key (visits payload) = []"
    using visits_keys [of payload] by (auto simp: items_under_def filter_empty_conv)
  have app: "items_under key (visits (p # payload))
              = items_under key (map (Pair (fst p)) (snd p)) @ items_under key (visits payload)"
    by (cases p) (simp add: visits_def items_under_def)
  show ?case
  proof (cases "p = (key, items)")
    case True
    then have "key \<notin> fst ` set payload" using Cons.prems by auto
    then have "items_under key (visits payload) = []" by (rule absent)
    then show ?thesis unfolding app using True by (simp add: other)
  next
    case False
    then have in_rest: "(key, items) \<in> set payload" using Cons.prems by auto
    moreover have "fst p \<notin> fst ` set payload" using Cons.prems(1) by simp
    ultimately have "fst p \<noteq> key" by (metis fst_conv imageI)
    then show ?thesis unfolding app using Cons.IH in_rest Cons.prems by (simp add: other)
  qed
qed

text \<open>
  Claim C2 (regulation completeness). For every payload object and every key of it, the
  list under that key in \<open>included\<close> followed by the list under that key in
  \<open>remainder\<close> is the list the payload has under the key: the order of the items is
  kept in both outputs and no item is duplicated or dropped.
\<close>

theorem regulatePayload_complete:
  assumes "distinct (map fst payload)" "(key, items) \<in> set payload"
  shows "\<exists>inc rest. map_of (fst (regulatePayload enc payload)) key = Some inc
           \<and> map_of (snd (regulatePayload enc payload)) key = Some rest
           \<and> inc @ rest = items"
proof -
  let ?ks = "map fst payload"
  let ?init = "\<lparr>included = zip ?ks (replicate (length ?ks) []),
               remainder = zip ?ks (replicate (length ?ks) []),
               size_kb = 0, limit = 0\<rparr> :: 'a reg_state"
  let ?st = "foldl (regulate_visit enc) ?init (visits payload)"
  have res: "regulatePayload enc payload = (included ?st, remainder ?st)"
    by (simp add: regulatePayload_def Let_def nested_each_visits)
  have key: "key \<in> set ?ks" using assms(2) by force
  have empty0: "items_at (zip ?ks (replicate (length ?ks) ([]::'a list))) k = []" for k
    using map_of_zip_replicate_Some [of ?ks "[]" k]
    by (auto simp: items_at_def split: option.splits)
  have "items_at (included ?st) key @ items_at (remainder ?st) key
          = items_at (included ?init) key @ items_at (remainder ?init) key @ items_under key (visits payload)"
    using visits_keys [of payload] empty0
    by (intro regulate_visits_split) (auto simp: map_fst_zip)
  then have cat: "items_at (included ?st) key @ items_at (remainder ?st) key = items"
    using empty0 items_under_visits [OF assms] by simp
  have "key \<in> set (map fst (included ?st))" "key \<in> set (map fst (remainder ?st))"
    using regulatePayload_keys [of enc payload] key by (simp_all add: res)
  then obtain inc rest where "map_of (included ?st) key = Some inc" "map_of (remainder ?st) key = Some rest"
    by (metis map_of_eq_None_iff not_Some_eq set_map)
  then show ?thesis using cat by (simp add: res items_at_def)
qed

theorem regulatePayload_complete_witness:
  "distinct (map fst [(''create'', [1000, 2000, 1000, 96]), (''replace'', [3::nat])])
   \<and> (''create'', [1000, 2000, 1000, 96]) \<in> set [(''create'', [1000, 2000, 1000, 96]), (''replace'', [3::nat])]
   \<and> (\<exists>inc rest.
         map_of (fst (regulatePayload (\<lambda>n. n)
                  [(''create'', [1000, 2000, 1000, 96]), (''replace'', [3::nat])])) ''create'' = Some inc
       \<and> map_of (snd (regulatePayload (\<lambda>n. n)
                  [(''create'', [1000, 2000, 1000, 96]), (''replace'', [3::nat])])) ''create'' = Some rest
       \<and> inc @ rest = [1000, 2000, 1000, 96])"
  using regulatePayload_complete [of "[(''create'', [1000, 2000, 1000, 96]), (''replace'', [3::nat])]"
      "''create''" "[1000, 2000, 1000, 96]" "\<lambda>n. n"]
  by simp

lemma within_budget_mono:
  "i \<le> j \<Longrightarrow> within_budget enc its j \<Longrightarrow> within_budget enc its i"
proof -
  assume ij: "i \<le> j" and wb: "within_budget enc its j"
  let ?f = "\<lambda>item. (of_nat (enc item) / 1024 :: rat)"
  have nonneg: "0 \<le> sum_list (map ?f xs)" for xs
    by (induction xs) simp_all
  have "take (Suc j) its = take (Suc i) its @ take (j - i) (drop (Suc i) its)"
    using ij by (metis Suc_diff_le Suc_le_mono add_diff_cancel_left' diff_Suc_Suc le_add_diff_inverse take_add)
  then have "sum_list (map ?f (take (Suc i) its)) \<le> sum_list (map ?f (take (Suc j) its))"
    using nonneg [of "take (j - i) (drop (Suc i) its)"] by simp
  then show ?thesis using wb ij by (auto simp: within_budget_def)
qed

lemma within_budget_snoc_old:
  "i < length its \<Longrightarrow> within_budget enc (its @ [x]) i = within_budget enc its i"
  by (simp add: within_budget_def)

lemma placed_snoc:
  "placed (\<lambda>i. sel (ys @ [snd v]) i) key (vs @ [v])
     = placed (\<lambda>i. sel (ys @ [snd v]) i) key vs @ (if fst v = key \<and> sel (ys @ [snd v]) (length vs) then [snd v] else [])"
  by (auto simp: placed_def nth_append intro!: map_cong filter_cong)

lemma placed_cong:
  "(\<And>i. i < length vs \<Longrightarrow> sel i = sel' i) \<Longrightarrow> placed sel key vs = placed sel' key vs"
  by (auto simp: placed_def intro!: arg_cong [where f = "map _"] filter_cong)

lemma regulate_item_counters:
  "size_kb (regulate_item enc k st x) = size_kb st + of_nat (enc x) / 1024"
  "limit (regulate_item enc k st x) = limit st + 1"
  by (simp_all add: regulate_item_def Let_def)

lemma regulate_item_included:
  "map_of (included (regulate_item enc k st x)) key
     = (if fits enc st x \<and> key = k then Some (items_at (included st) k @ [x])
        else map_of (included st) key)"
  by (simp add: regulate_item_def Let_def fits_def update_conv')

lemma regulate_item_remainder:
  "map_of (remainder (regulate_item enc k st x)) key
     = (if \<not> fits enc st x \<and> key = k then Some (items_at (remainder st) k @ [x])
        else map_of (remainder st) key)"
  by (simp add: regulate_item_def Let_def fits_def update_conv')

lemma regulate_visits_placed:
  fixes enc :: "'a \<Rightarrow> nat" and vs :: "(string \<times> 'a) list"
  assumes "fst ` set vs \<subseteq> set ks"
  defines "init \<equiv> \<lparr>included = zip ks (replicate (length ks) []),
                       remainder = zip ks (replicate (length ks) []),
                       size_kb = 0, limit = 0\<rparr>"
  defines "st \<equiv> foldl (regulate_visit enc) init vs"
  shows "size_kb st = sum_list (map (\<lambda>item. of_nat (enc item) / 1024) (map snd vs))
       \<and> limit st = length vs
       \<and> (\<forall>key \<in> set ks.
             map_of (included st) key = Some (placed (within_budget enc (map snd vs)) key vs)
           \<and> map_of (remainder st) key = Some (placed (\<lambda>i. \<not> within_budget enc (map snd vs) i) key vs))"
  using assms(1) unfolding st_def
proof (induction vs rule: rev_induct)
  case Nil
  show ?case by (simp add: init_def placed_def map_of_zip_replicate)
next
  case (snoc v vs)
  let ?st = "foldl (regulate_visit enc) init vs"
  let ?its = "map snd vs"
  have IH: "size_kb ?st = sum_list (map (\<lambda>item. of_nat (enc item) / 1024) ?its)"
    "limit ?st = length vs"
    "\<And>key. key \<in> set ks \<Longrightarrow> map_of (included ?st) key = Some (placed (within_budget enc ?its) key vs)"
    "\<And>key. key \<in> set ks \<Longrightarrow> map_of (remainder ?st) key = Some (placed (\<lambda>i. \<not> within_budget enc ?its i) key vs)"
    using snoc by auto
  have kv: "fst v \<in> set ks" using snoc.prems by auto
  define s where "s = foldl (regulate_visit enc) init vs"
  have IH': "size_kb s = sum_list (map (\<lambda>item. of_nat (enc item) / 1024) ?its)"
    "limit s = length vs"
    "\<And>key. key \<in> set ks \<Longrightarrow> map_of (included s) key = Some (placed (within_budget enc ?its) key vs)"
    "\<And>key. key \<in> set ks \<Longrightarrow> map_of (remainder s) key = Some (placed (\<lambda>i. \<not> within_budget enc ?its i) key vs)"
    using IH by (simp_all add: s_def)
  have step: "foldl (regulate_visit enc) init (vs @ [v]) = regulate_item enc (fst v) s (snd v)"
    by (simp add: s_def regulate_visit_def)
  have last: "within_budget enc (?its @ [snd v]) (length vs) = fits enc s (snd v)"
    by (simp add: within_budget_def fits_def IH')
  have old_in: "placed (within_budget enc (?its @ [snd v])) key vs = placed (within_budget enc ?its) key vs" for key
    by (rule placed_cong) (simp add: within_budget_snoc_old)
  have old_out: "placed (\<lambda>i. \<not> within_budget enc (?its @ [snd v]) i) key vs
                   = placed (\<lambda>i. \<not> within_budget enc ?its i) key vs" for key
    by (rule placed_cong) (simp add: within_budget_snoc_old)
  have new_in: "placed (within_budget enc (?its @ [snd v])) key (vs @ [v])
      = placed (within_budget enc ?its) key vs
          @ (if fst v = key \<and> fits enc s (snd v) then [snd v] else [])" for key
    using placed_snoc [of "within_budget enc" ?its v key vs] by (simp add: old_in last)
  have new_out: "placed (\<lambda>i. \<not> within_budget enc (?its @ [snd v]) i) key (vs @ [v])
      = placed (\<lambda>i. \<not> within_budget enc ?its i) key vs
          @ (if fst v = key \<and> \<not> fits enc s (snd v) then [snd v] else [])" for key
    using placed_snoc [of "\<lambda>ys i. \<not> within_budget enc ys i" ?its v key vs] by (simp add: old_out last)
  have c1: "size_kb (regulate_item enc (fst v) s (snd v))
              = sum_list (map (\<lambda>item. of_nat (enc item) / 1024) (map snd (vs @ [v])))"
    by (simp add: regulate_item_counters IH')
  have c2: "limit (regulate_item enc (fst v) s (snd v)) = length (vs @ [v])"
    by (simp add: regulate_item_counters IH')
  have c3: "map_of (included (regulate_item enc (fst v) s (snd v))) key
              = Some (placed (within_budget enc (map snd (vs @ [v]))) key (vs @ [v]))"
    if "key \<in> set ks" for key
    using that kv IH'(3) [of key] IH'(3) [of "fst v"]
    by (simp add: regulate_item_included new_in items_at_def)
  have c4: "map_of (remainder (regulate_item enc (fst v) s (snd v))) key
              = Some (placed (\<lambda>i. \<not> within_budget enc (map snd (vs @ [v])) i) key (vs @ [v]))"
    if "key \<in> set ks" for key
    using that kv IH'(4) [of key] IH'(4) [of "fst v"]
    by (simp add: regulate_item_remainder new_out items_at_def)
  show ?case
    unfolding step using c1 c2 c3 c4 by blast
qed

lemma regulatePayload_placed:
  assumes "key \<in> set (map fst payload)"
  shows "map_of (fst (regulatePayload enc payload)) key
           = Some (placed (within_budget enc (map snd (visits payload))) key (visits payload))"
    and "map_of (snd (regulatePayload enc payload)) key
           = Some (placed (\<lambda>i. \<not> within_budget enc (map snd (visits payload)) i) key (visits payload))"
proof -
  have "regulatePayload enc payload
          = (included (foldl (regulate_visit enc)
                \<lparr>included = zip (map fst payload) (replicate (length (map fst payload)) []),
                 remainder = zip (map fst payload) (replicate (length (map fst payload)) []),
                 size_kb = 0, limit = 0\<rparr> (visits payload)),
             remainder (foldl (regulate_visit enc)
                \<lparr>included = zip (map fst payload) (replicate (length (map fst payload)) []),
                 remainder = zip (map fst payload) (replicate (length (map fst payload)) []),
                 size_kb = 0, limit = 0\<rparr> (visits payload)))"
    by (simp add: regulatePayload_def Let_def nested_each_visits)
  moreover note regulate_visits_placed [OF visits_keys [of payload], of enc]
  ultimately show
    "map_of (fst (regulatePayload enc payload)) key
           = Some (placed (within_budget enc (map snd (visits payload))) key (visits payload))"
    "map_of (snd (regulatePayload enc payload)) key
           = Some (placed (\<lambda>i. \<not> within_budget enc (map snd (visits payload)) i) key (visits payload))"
    using assms by auto
qed

text \<open>
  Claim C3 (budget monotonicity). The two counters run over all keys and are never reset:
  an item lands in \<open>included\<close> exactly at the visits after which the cumulative size
  of everything visited so far is strictly below 4 KB and the cumulative count is at most
  10, and in \<open>remainder\<close> at all other visits; once a visit is over budget, so is
  every later visit, under any key.
\<close>

theorem regulatePayload_budget:
  assumes "key \<in> set (map fst payload)"
  shows "map_of (fst (regulatePayload enc payload)) key
           = Some (placed (within_budget enc (map snd (visits payload))) key (visits payload))
       \<and> map_of (snd (regulatePayload enc payload)) key
           = Some (placed (\<lambda>i. \<not> within_budget enc (map snd (visits payload)) i) key (visits payload))
       \<and> (\<forall>i j. i \<le> j \<longrightarrow> \<not> within_budget enc (map snd (visits payload)) i
                  \<longrightarrow> \<not> within_budget enc (map snd (visits payload)) j)"
  using regulatePayload_placed [OF assms, of enc]
        within_budget_mono [of _ _ enc "map snd (visits payload)"]
  by auto

theorem regulatePayload_budget_witness:
  "''replace'' \<in> set (map fst [(''create'', [1000, 2000]), (''replace'', [2000, 5::nat]), (''delete'', [7])])
   \<and> map_of (fst (regulatePayload (\<lambda>n. n)
         [(''create'', [1000, 2000]), (''replace'', [2000, 5::nat]), (''delete'', [7])])) ''replace''
       = Some (placed (within_budget (\<lambda>n. n)
                 (map snd (visits [(''create'', [1000, 2000]), (''replace'', [2000, 5::nat]), (''delete'', [7])])))
               ''replace'' (visits [(''create'', [1000, 2000]), (''replace'', [2000, 5::nat]), (''delete'', [7])]))
   \<and> map_of (snd (regulatePayload (\<lambda>n. n)
         [(''create'', [1000, 2000]), (''replace'', [2000, 5::nat]), (''delete'', [7])])) ''replace''
       = Some [2000, 5]"
  using regulatePayload_budget [of "''replace''"
      "[(''create'', [1000, 2000]), (''replace'', [2000, 5::nat]), (''delete'', [7])]" "\<lambda>n. n"]
  by (simp add: placed_def visits_def within_budget_def MAX_KILOBYTES_PER_PAYLOAD_def
        MAX_DOCUMENTS_PER_PAYLOAD_def upt_rec)

section \<open>Properties of \<^verbatim>\<open>broadcast\<close>\<close>

lemma any_length_operation_set:
  assumes "is_operation_set p"
  shows "any_length p = Some (nonempty_batch p)"
proof -
  have "\<exists>c. map_of p ''create'' = Some c" "\<exists>r. map_of p ''replace'' = Some r"
       "\<exists>d. map_of p ''delete'' = Some d"
    using assms by (auto simp: is_operation_set_def map_of_eq_None_iff [symmetric] simp del: map_of_eq_None_iff)
  then show ?thesis
    by (auto simp: any_length_def nonempty_batch_def items_at_def)
qed

lemma regulatePayload_operation_set:
  assumes "is_operation_set p"
  shows "is_operation_set (fst (regulatePayload enc p))" "is_operation_set (snd (regulatePayload enc p))"
  using assms by (simp_all add: is_operation_set_def regulatePayload_keys)

lemma broadcast_step:
  assumes "is_operation_set payload"
  shows "broadcast rm enc eg depth payload w =
     (let included' = fst (regulatePayload (enc_doc enc) payload);
          remainder' = snd (regulatePayload (enc_doc enc) payload);
          sent = w\<lparr>calls := calls w @ [Broadcast included']\<rparr>
      in if nonempty_batch included'
         then (if \<not> documents_broadcast rm (calls w) included' then Some (Inr False, sent)
               else if nonempty_batch remainder' then broadcast rm enc eg (frames eg) remainder' sent
               else Some (Inr True, sent))
         else (if nonempty_batch remainder'
               then (if depth = 0 then Some (out_of_stack eg, w)
                     else broadcast rm enc eg (depth - 1) remainder' w)
               else Some (Inr True, w)))"
  using regulatePayload_operation_set [OF assms, of "enc_doc enc"]
  by (subst broadcast.simps)
     (auto simp: any_length_operation_set Let_def split: prod.splits)








lemma regulate_item_eval:
  "regulate_item enc key \<lparr>included = inc, remainder = rest, size_kb = s, limit = l\<rparr> item
     = (if s + of_nat (enc item) / 1024 < 4 \<and> l + 1 \<le> 10
        then \<lparr>included = AList.update key (items_at inc key @ [item]) inc, remainder = rest,
              size_kb = s + of_nat (enc item) / 1024, limit = l + 1\<rparr>
        else \<lparr>included = inc, remainder = AList.update key (items_at rest key @ [item]) rest,
              size_kb = s + of_nat (enc item) / 1024, limit = l + 1\<rparr>)"
  by (simp add: regulate_item_def Let_def MAX_KILOBYTES_PER_PAYLOAD_def MAX_DOCUMENTS_PER_PAYLOAD_def)

lemma regulate_example_1:
  "regulatePayload (enc_doc (\<lambda>json. 3000))
      [(''create'', [Some doc_A, Some doc_B]), (''replace'', [Some doc_C]), (''delete'', [])]
   = ([(''create'', [Some doc_A]), (''replace'', []), (''delete'', [])],
      [(''create'', [Some doc_B]), (''replace'', [Some doc_C]), (''delete'', [])])"
  by (simp add: regulatePayload_def regulate_item_eval items_at_def enc_doc_def)

lemma regulate_example_2:
  "regulatePayload (enc_doc (\<lambda>json. 3000))
      [(''create'', [Some doc_B]), (''replace'', [Some doc_C]), (''delete'', [])]
   = ([(''create'', [Some doc_B]), (''replace'', []), (''delete'', [])],
      [(''create'', []), (''replace'', [Some doc_C]), (''delete'', [])])"
  by (simp add: regulatePayload_def regulate_item_eval items_at_def enc_doc_def)

text \<open>
  The scenario of three chunks with a remote that throws at its second call: the result is
  false after exactly two remote calls, and the third chunk is never submitted.
\<close>

lemma broadcast_three_chunks:
  "broadcast failing_second (\<lambda>json. 3000) eg (frames eg)
        [(''create'', [Some doc_A, Some doc_B]), (''replace'', [Some doc_C]), (''delete'', [])]
        \<lparr>documents = [], calls = []\<rparr>
     = Some (Inr False,
         \<lparr>documents = [],
          calls = [Broadcast [(''create'', [Some doc_A]), (''replace'', []), (''delete'', [])],
                   Broadcast [(''create'', [Some doc_B]), (''replace'', []), (''delete'', [])]]\<rparr>)"
proof -
  let ?p0 = "[(''create'', [Some doc_A, Some doc_B]), (''replace'', [Some doc_C]), (''delete'', [])]"
  let ?p1 = "[(''create'', [Some doc_B]), (''replace'', [Some doc_C]), (''delete'', [])]"
  let ?c0 = "[(''create'', [Some doc_A]), (''replace'', []), (''delete'', [])]"
  let ?w1 = "\<lparr>documents = [], calls = [Broadcast ?c0]\<rparr>"
  have o0: "is_operation_set ?p0" and o1: "is_operation_set ?p1"
    by (simp_all add: is_operation_set_def)
  have "broadcast failing_second (\<lambda>json. 3000) eg (frames eg) ?p0 \<lparr>documents = [], calls = []\<rparr>
          = broadcast failing_second (\<lambda>json. 3000) eg (frames eg) ?p1 ?w1"
    by (subst broadcast_step [OF o0])
       (simp add: regulate_example_1 nonempty_batch_def items_at_def failing_second_def)
  also have "\<dots> = Some (Inr False, ?w1\<lparr>calls := calls ?w1 @
                 [Broadcast [(''create'', [Some doc_B]), (''replace'', []), (''delete'', [])]]\<rparr>)"
    by (subst broadcast_step [OF o1])
       (simp add: regulate_example_2 nonempty_batch_def items_at_def failing_second_def)
  finally show ?thesis by simp
qed

lemma regulate_single:
  "regulatePayload enc [(key, [x])]
     = (if of_nat (enc x) / 1024 < (4::rat) then ([(key, [x])], [(key, [])]) else ([(key, [])], [(key, [x])]))"
  by (simp add: regulatePayload_def regulate_item_eval items_at_def)

lemma broadcast_create_only:
  "broadcast rm enc eg depth [(''create'', [created])] w
     = (if of_nat (enc_doc enc created) / 1024 < (4::rat)
        then Some (Inr False, w\<lparr>calls := calls w @ [Broadcast [(''create'', [created])]]\<rparr>)
        else Some (Inr False, w))"
  by (subst broadcast.simps) (simp add: regulate_single any_length_def)

lemma broadcast_replace_only:
  "broadcast rm enc eg depth [(''replace'', [replaced])] w = Some (Inr False, w)"
  by (subst broadcast.simps) (simp add: regulate_single any_length_def)

lemma broadcast_delete_only:
  "broadcast rm enc eg depth [(''delete'', [deleted])] w = Some (Inr False, w)"
  by (subst broadcast.simps) (simp add: regulate_single any_length_def)

lemma broadcast_no_keys: "broadcast rm enc eg depth [] w = Some (Inr False, w)"
  by (subst broadcast.simps) (simp add: regulatePayload_def any_length_def)

text \<open>
  Claim C1 says that \<^verbatim>\<open>broadcast\<close>, once the submission of the included batch has
  succeeded (or was skipped) and no list of the remainder is non-empty, returns true. The
  comment at the action describes the payload as an object with \<^verbatim>\<open>create\<close>,
  \<^verbatim>\<open>replace\<close> and or \<^verbatim>\<open>delete\<close> keys, and the actions \<^verbatim>\<open>create\<close>, \<^verbatim>\<open>replace\<close> and
  \<^verbatim>\<open>delete\<close> pass an object with one of the keys. On such an object the length test
  reads \<^verbatim>\<open>length\<close> of a list that is not there: with the key \<^verbatim>\<open>create\<close> only, the
  document is submitted and accepted, the test of the remainder throws, and the action
  returns false; with the key \<^verbatim>\<open>replace\<close> or \<^verbatim>\<open>delete\<close> only, or with no key, the
  test of the included batch throws and the action returns false without any submission.
  Hence \<^verbatim>\<open>create\<close> submits its document and never commits it to the mirror. (On an
  object with all three keys the action takes the steps that the claim describes, lemma
  \<open>broadcast_step\<close>, where the recursion after a skipped submission runs on the stack
  of the caller; the scenario of three chunks is lemma \<open>broadcast_three_chunks\<close>.)
\<close>

theorem broadcast_one_key:
  "\<forall>eg.
     broadcast accepting (\<lambda>json. 3000) eg (frames eg) [(''create'', [Some doc_A])]
         \<lparr>documents = [], calls = []\<rparr>
       = Some (Inr False, \<lparr>documents = [], calls = [Broadcast [(''create'', [Some doc_A])]]\<rparr>)
   \<and> broadcast accepting (\<lambda>json. 3000) eg (frames eg) [(''replace'', [Some doc_A])]
         \<lparr>documents = [], calls = []\<rparr>
       = Some (Inr False, \<lparr>documents = [], calls = []\<rparr>)
   \<and> broadcast accepting (\<lambda>json. 3000) eg (frames eg) [(''delete'', [Some doc_A])]
         \<lparr>documents = [], calls = []\<rparr>
       = Some (Inr False, \<lparr>documents = [], calls = []\<rparr>)
   \<and> broadcast accepting (\<lambda>json. 3000) eg (frames eg) [] \<lparr>documents = [], calls = []\<rparr>
       = Some (Inr False, \<lparr>documents = [], calls = []\<rparr>)
   \<and> create_action accepting (\<lambda>json. 3000) eg [(''name'', VStr ''x'')] \<lparr>documents = [], calls = []\<rparr>
       = Some (Inr Undefined,
           \<lparr>documents = [],
            calls = [Create [(''name'', VStr ''x'')],
                     Broadcast [(''create'', [Some \<lparr>doc_id = ''x'', doc_data = [(''name'', VStr ''x'')]\<rparr>])]]\<rparr>)"
  by (simp add: broadcast_create_only broadcast_replace_only broadcast_delete_only broadcast_no_keys
        enc_doc_def create_action_def compose_def accepting_def name_of_def)

section \<open>An oversized first item\<close>

lemma alist_eqI:
  assumes "distinct (map fst xs)" "map fst xs = map fst ys"
      and "\<And>k. k \<in> set (map fst xs) \<Longrightarrow> map_of xs k = map_of ys k"
  shows "xs = ys"
  using assms
proof (induction xs arbitrary: ys)
  case Nil
  then show ?case by simp
next
  case (Cons x xs)
  then obtain y ys' where ys: "ys = y # ys'" by (cases ys) auto
  have k: "fst x = fst y" and ks: "map fst xs = map fst ys'" using Cons.prems(2) ys by auto
  have "map_of (x # xs) (fst x) = map_of ys (fst x)" by (rule Cons.prems(3)) simp
  then have xy: "x = y" using k ys by (cases x; cases y) auto
  have "xs = ys'"
  proof (rule Cons.IH [OF _ ks])
    show "distinct (map fst xs)" using Cons.prems(1) by simp
    fix k assume kin: "k \<in> set (map fst xs)"
    then have "k \<noteq> fst x" using Cons.prems(1) by force
    moreover have "map_of (x # xs) k = map_of ys k" using kin by (intro Cons.prems(3)) simp
    ultimately show "map_of xs k = map_of ys' k" using ys xy by (cases x) (auto split: if_splits)
  qed
  then show ?case using xy ys by simp
qed

lemma placed_all: "placed (\<lambda>i. True) key vs = items_under key vs"
proof (induction vs rule: rev_induct)
  case Nil
  show ?case by (simp add: placed_def items_under_def)
next
  case (snoc v vs)
  show ?case
    using placed_snoc [of "\<lambda>ys i. True" "[]" v key vs] snoc
    by (simp add: items_under_def)
qed

lemma placed_none: "placed (\<lambda>i. False) key vs = []"
  by (simp add: placed_def)

lemma over_budget_from_start:
  assumes "its = item # rest" "4096 \<le> enc item"
  shows "\<not> within_budget enc its i"
proof -
  let ?f = "\<lambda>item. (of_nat (enc item) / 1024 :: rat)"
  have nonneg: "0 \<le> sum_list (map ?f xs)" for xs
    by (induction xs) simp_all
  have "(4::rat) \<le> ?f item" using assms(2) by simp
  moreover have "sum_list (map ?f (take (Suc i) its)) = ?f item + sum_list (map ?f (take i rest))"
    using assms(1) by simp
  ultimately have "4 \<le> sum_list (map ?f (take (Suc i) its))"
    using nonneg [of "take i rest"] by linarith
  then show ?thesis by (simp add: within_budget_def MAX_KILOBYTES_PER_PAYLOAD_def)
qed

lemma regulatePayload_oversized:
  fixes payload :: "'a list obj"
  assumes "distinct (map fst payload)" "visits payload = (key, item) # vs" "4096 \<le> enc item"
  shows "regulatePayload enc payload = (map (\<lambda>(k, items). (k, [])) payload, payload)"
proof -
  have none: "within_budget enc (map snd (visits payload)) = (\<lambda>i. False)"
    using over_budget_from_start [of "map snd (visits payload)" item "map snd vs" enc] assms(2,3)
    by (auto simp: fun_eq_iff)
  have inc: "map_of (fst (regulatePayload enc payload)) k = Some []"
    and rest: "map_of (snd (regulatePayload enc payload)) k = Some (items_under k (visits payload))"
    if "k \<in> set (map fst payload)" for k
    using regulatePayload_placed [OF that, of enc] by (simp_all add: none placed_none placed_all)
  have "fst (regulatePayload enc payload) = map (\<lambda>(k, items). (k, [])) payload"
  proof (rule alist_eqI)
    show "distinct (map fst (fst (regulatePayload enc payload)))"
      using assms(1) by (simp add: regulatePayload_keys)
    show "map fst (fst (regulatePayload enc payload)) = map fst (map (\<lambda>(k, items). (k, [])) payload)"
      by (simp add: regulatePayload_keys case_prod_beta comp_def)
    fix k assume "k \<in> set (map fst (fst (regulatePayload enc payload)))"
    then have k: "k \<in> set (map fst payload)" by (simp add: regulatePayload_keys)
    have "map_of (map (\<lambda>(k, items). (k, [])) payload) k = Some ([] :: 'a list)"
      using k by (induction payload) (auto split: if_splits)
    then show "map_of (fst (regulatePayload enc payload)) k = map_of (map (\<lambda>(k, items). (k, [])) payload) k"
      using inc [OF k] by simp
  qed
  moreover have "snd (regulatePayload enc payload) = payload"
  proof (rule alist_eqI)
    show "distinct (map fst (snd (regulatePayload enc payload)))"
      using assms(1) by (simp add: regulatePayload_keys)
    show "map fst (snd (regulatePayload enc payload)) = map fst payload"
      by (simp add: regulatePayload_keys)
    fix k assume "k \<in> set (map fst (snd (regulatePayload enc payload)))"
    then have k: "k \<in> set (map fst payload)" by (simp add: regulatePayload_keys)
    then obtain items where items: "(k, items) \<in> set payload" by auto
    then have "map_of payload k = Some items" using assms(1) by simp
    then show "map_of (snd (regulatePayload enc payload)) k = map_of payload k"
      using rest [OF k] items_under_visits [OF assms(1) items] by simp
  qed
  ultimately show ?thesis by (simp add: prod_eq_iff)
qed


lemma first_visit_nonempty:
  assumes "distinct (map fst payload)" "visits payload = (key, item) # vs"
  shows "key \<in> set (map fst payload)" "items_at payload key \<noteq> []"
proof -
  show key: "key \<in> set (map fst payload)"
    using visits_keys [of payload] assms(2) by auto
  then obtain items where items: "(key, items) \<in> set payload" by auto
  have "items_under key (visits payload) = items"
    by (rule items_under_visits [OF assms(1) items])
  then have "items \<noteq> []" using assms(2) by (auto simp: items_under_def)
  moreover have "map_of payload key = Some items" using assms(1) items by simp
  ultimately show "items_at payload key \<noteq> []" by (simp add: items_at_def)
qed

lemma emptied_not_nonempty:
  fixes payload :: batch
  shows "\<not> nonempty_batch (map (\<lambda>(k, items). (k, [])) payload)"
proof -
  have "items_at (map (\<lambda>(k, items). (k, [] :: doc option list)) payload) key = []" for key
    by (induction payload) (auto simp: items_at_def split: option.splits)
  then show ?thesis by (simp add: nonempty_batch_def)
qed

lemma overflow_when_oversized:
  assumes "is_operation_set payload" "visits payload = (key, d) # vs" "4096 \<le> enc_doc enc d"
  shows "broadcast rm enc eg depth payload w = Some (out_of_stack eg, w)"
proof -
  have dist: "distinct (map fst payload)" using assms(1) by (simp add: is_operation_set_def)
  have reg: "regulatePayload (enc_doc enc) payload = (map (\<lambda>(k, items). (k, [])) payload, payload)"
    using regulatePayload_oversized [of payload key d vs "enc_doc enc"] dist assms(2,3) by simp
  have "key \<in> {''create'', ''replace'', ''delete''}"
    using first_visit_nonempty(1) [OF dist assms(2)] assms(1)
    by (auto simp: is_operation_set_def)
  then have ne: "nonempty_batch payload"
    using first_visit_nonempty(2) [OF dist assms(2)] by (auto simp: nonempty_batch_def)
  have step: "broadcast rm enc eg n payload w
                = (if n = 0 then Some (out_of_stack eg, w) else broadcast rm enc eg (n - 1) payload w)" for n
    using ne emptied_not_nonempty [of payload]
    by (subst broadcast_step [OF assms(1)]) (simp add: reg)
  show ?thesis
  proof (induction depth)
    case 0
    show ?case by (subst step) simp
  next
    case (Suc n)
    then show ?case by (subst step) simp
  qed
qed

text \<open>
  Claim C10 says that a \<^verbatim>\<open>broadcast\<close> of an operation set whose first visited item has
  4 KB or more never terminates and never returns a result. The recursion on the remainder
  is reached without any \<^verbatim>\<open>await\<close>, so the action re-enters itself on the same stack
  until the stack is exhausted, and the call ends: with a stack of ten thousand frames and
  a RangeError that escapes the handler, the call rejects, without a remote call.
\<close>

theorem broadcast_oversized_ends:
  "broadcast accepting (\<lambda>json. 5000) deep_stack (frames deep_stack)
      [(''create'', [Some doc_A]), (''replace'', [Some doc_B]), (''delete'', [])]
      \<lparr>documents = [], calls = []\<rparr>
   = Some (Inl RangeError, \<lparr>documents = [], calls = []\<rparr>)"
proof -
  have "is_operation_set [(''create'', [Some doc_A]), (''replace'', [Some doc_B]), (''delete'', [])]"
    by (simp add: is_operation_set_def)
  moreover have "visits [(''create'', [Some doc_A]), (''replace'', [Some doc_B]), (''delete'', [])]
                   = (''create'', Some doc_A) # [(''replace'', Some doc_B)]"
    by (simp add: visits_def)
  moreover have "4096 \<le> enc_doc (\<lambda>json. 5000) (Some doc_A)"
    by (simp add: enc_doc_def)
  ultimately show ?thesis
    by (simp add: overflow_when_oversized out_of_stack_def deep_stack_def)
qed

text \<open>
  Claim C10 as amended. If the first item that the regulator visits serialises to 4 KB (4096
  bytes) or more, every item goes to \<open>remainder\<close>: \<open>included\<close> has only empty lists and
  \<open>remainder\<close> is the payload itself. A \<open>broadcast\<close> of such an operation set (an
  object with the three keys \<^verbatim>\<open>create\<close>, \<^verbatim>\<open>replace\<close> and \<^verbatim>\<open>delete\<close>) makes no
  remote call and re-enters itself on a remainder identical to its input, synchronously,
  until the call stack is exhausted; the call then ends, whatever the depth of the stack:
  it returns false if its handler catches the RangeError, and rejects with it otherwise.
\<close>

theorem broadcast_oversized:
  assumes "is_operation_set payload" "visits payload = (key, d) # vs" "4096 \<le> enc_doc enc d"
  shows "regulatePayload (enc_doc enc) payload = (map (\<lambda>(k, items). (k, [])) payload, payload)
       \<and> \<not> nonempty_batch (fst (regulatePayload (enc_doc enc) payload))
       \<and> broadcast rm enc eg depth payload w
           = Some (if caught eg then Inr False else Inl RangeError, w)"
proof -
  have dist: "distinct (map fst payload)" using assms(1) by (simp add: is_operation_set_def)
  have reg: "regulatePayload (enc_doc enc) payload = (map (\<lambda>(k, items). (k, [])) payload, payload)"
    using regulatePayload_oversized [of payload key d vs "enc_doc enc"] dist assms(2,3) by simp
  show ?thesis
    using reg emptied_not_nonempty [of payload] overflow_when_oversized [OF assms, of rm eg depth w]
    by (simp add: out_of_stack_def)
qed

theorem broadcast_oversized_witness:
  "is_operation_set [(''create'', [Some doc_A]), (''replace'', [Some doc_B]), (''delete'', [])]
   \<and> visits [(''create'', [Some doc_A]), (''replace'', [Some doc_B]), (''delete'', [])]
       = (''create'', Some doc_A) # [(''replace'', Some doc_B)]
   \<and> 4096 \<le> enc_doc (\<lambda>json. 5000) (Some doc_A)
   \<and> regulatePayload (enc_doc (\<lambda>json. 5000))
         [(''create'', [Some doc_A]), (''replace'', [Some doc_B]), (''delete'', [])]
       = ([(''create'', []), (''replace'', []), (''delete'', [])],
          [(''create'', [Some doc_A]), (''replace'', [Some doc_B]), (''delete'', [])])
   \<and> broadcast accepting (\<lambda>json. 5000) \<lparr>frames = 10000, caught = True\<rparr> 10000
         [(''create'', [Some doc_A]), (''replace'', [Some doc_B]), (''delete'', [])]
         \<lparr>documents = [], calls = []\<rparr>
       = Some (Inr False, \<lparr>documents = [], calls = []\<rparr>)"
  using broadcast_oversized [of "[(''create'', [Some doc_A]), (''replace'', [Some doc_B]), (''delete'', [])]"
      "''create''" "Some doc_A" "[(''replace'', Some doc_B)]" "\<lambda>json. 5000" accepting
      "\<lparr>frames = 10000, caught = True\<rparr>" 10000 "\<lparr>documents = [], calls = []\<rparr>"]
  by (simp add: is_operation_set_def visits_def enc_doc_def)

section \<open>The paginated fetcher\<close>

lemma all_while_pages:
  assumes get: "\<And>i. i < k \<Longrightarrow>
                  documents_get rm (calls w @ queried allQuery i) (page_query allQuery i) = Some (pages i)"
      and continue: "\<And>i. Suc i < k \<Longrightarrow>
                  Suc i * MAX_DOCUMENTS_PER_QUERY \<le> length (fetched pages (Suc i))"
      and stop: "length (fetched pages k) < k * MAX_DOCUMENTS_PER_QUERY"
      and j: "j < k"
  shows "all_while rm allQuery (fetched pages j) j (w\<lparr>calls := calls w @ queried allQuery j\<rparr>)
           = Some (Inr (fetched pages k),
                   commit_all (fetched pages k) (w\<lparr>calls := calls w @ queried allQuery k\<rparr>))"
  using j
proof (induction "k - Suc j" arbitrary: j)
  case 0
  then have jk: "Suc j = k" by simp
  have enter: "j * MAX_DOCUMENTS_PER_QUERY \<le> length (fetched pages j)"
  proof (cases j)
    case 0
    then show ?thesis by simp
  next
    case (Suc i)
    then show ?thesis using continue [of i] jk by simp
  qed
  have next_all: "fetched pages j @ pages j = fetched pages k"
    using jk by (auto simp: fetched_def)
  have next_calls: "calls w @ queried allQuery j @ [Get (page_query allQuery j)] = calls w @ queried allQuery k"
    using jk by (auto simp: queried_def)
  have leave: "\<not> k * MAX_DOCUMENTS_PER_QUERY \<le> length (fetched pages k)"
    using stop by simp
  show ?case
    apply (subst all_while.simps)
    apply (simp add: enter retrieve_def get [OF "0.prems"] next_all next_calls)
    apply (subst all_while.simps)
    using leave jk apply simp
    done
next
  case (Suc n)
  then have jk: "Suc j < k" by simp
  have enter: "j * MAX_DOCUMENTS_PER_QUERY \<le> length (fetched pages j)"
  proof (cases j)
    case 0
    then show ?thesis by simp
  next
    case (Suc i)
    then show ?thesis using continue [of i] jk by simp
  qed
  have next_all: "fetched pages j @ pages j = fetched pages (Suc j)"
    by (simp add: fetched_def)
  have next_calls: "calls w @ queried allQuery j @ [Get (page_query allQuery j)] = calls w @ queried allQuery (Suc j)"
    by (simp add: queried_def)
  have IH: "all_while rm allQuery (fetched pages (Suc j)) (Suc j) (w\<lparr>calls := calls w @ queried allQuery (Suc j)\<rparr>)
           = Some (Inr (fetched pages k),
                   commit_all (fetched pages k) (w\<lparr>calls := calls w @ queried allQuery k\<rparr>))"
    using Suc.hyps(2) jk by (intro Suc.hyps(1)) simp_all
  show ?case
    apply (subst all_while.simps)
    apply (simp add: enter retrieve_def get [OF Suc.prems] next_all next_calls IH)
    done
qed

lemma full_pages_then_short:
  assumes "0 < k" "\<And>i. Suc i < k \<Longrightarrow> length (pages i) = MAX_DOCUMENTS_PER_QUERY"
      and "length (pages (k - 1)) < MAX_DOCUMENTS_PER_QUERY"
  shows "\<And>i. Suc i < k \<Longrightarrow> Suc i * MAX_DOCUMENTS_PER_QUERY \<le> length (concat (map pages [0..<Suc i]))"
    and "length (concat (map pages [0..<k])) < k * MAX_DOCUMENTS_PER_QUERY"
proof -
  have full: "length (concat (map pages [0..<n])) = n * MAX_DOCUMENTS_PER_QUERY" if "n < k" for n
    using that assms(2) by (induction n) simp_all
  show "Suc i * MAX_DOCUMENTS_PER_QUERY \<le> length (concat (map pages [0..<Suc i]))" if "Suc i < k" for i
    using full [OF that] by simp
  obtain j where k: "k = Suc j" using assms(1) by (cases k) auto
  show "length (concat (map pages [0..<k])) < k * MAX_DOCUMENTS_PER_QUERY"
    using full [of j] assms(3) by (simp add: k)
qed

text \<open>
  Claim C7 (pagination). The action \<^verbatim>\<open>all\<close> starts at page 0, queries with
  \<^verbatim>\<open>startAt = page * 100\<close> and \<^verbatim>\<open>limit = 100\<close>, appends every answer to the accumulator
  and goes on as long as the accumulator holds at least \<^verbatim>\<open>page * 100\<close> documents; the
  first query is always made. If after each of the first \<open>k - 1\<close> answers the accumulator is
  that long, and after the \<open>k\<close>-th it is shorter than \<open>k * 100\<close>, the action returns after
  exactly \<open>k\<close> remote calls with all answers in order, and has committed them to the
  mirror. Pages that are full until the \<open>k\<close>-th, which is shorter than 100, are such answers
  (lemma \<open>full_pages_then_short\<close>); with \<open>k = 1\<close> the first page is already short,
  on an empty collection too.
\<close>

theorem all_action_pages:
  assumes "0 < k"
      and "\<And>i. i < k \<Longrightarrow>
             documents_get rm (calls w @ queried allQuery i) (page_query allQuery i) = Some (pages i)"
      and "\<And>i. Suc i < k \<Longrightarrow>
             Suc i * MAX_DOCUMENTS_PER_QUERY \<le> length (concat (map pages [0..<Suc i]))"
      and "length (concat (map pages [0..<k])) < k * MAX_DOCUMENTS_PER_QUERY"
  shows "all_action rm allQuery w
           = Some (Inr (concat (map pages [0..<k])),
                   commit_all (concat (map pages [0..<k])) (w\<lparr>calls := calls w @ queried allQuery k\<rparr>))
       \<and> length (queried allQuery k) = k
       \<and> (\<forall>i<k. \<exists>q. queried allQuery k ! i = Get q
                    \<and> map_of q ''startAt'' = Some (QNum (i * MAX_DOCUMENTS_PER_QUERY))
                    \<and> map_of q ''limit'' = Some (QNum MAX_DOCUMENTS_PER_QUERY))"
proof -
  have "all_while rm allQuery (fetched pages 0) 0 (w\<lparr>calls := calls w @ queried allQuery 0\<rparr>)
           = Some (Inr (fetched pages k),
                   commit_all (fetched pages k) (w\<lparr>calls := calls w @ queried allQuery k\<rparr>))"
    using assms by (intro all_while_pages) (simp_all add: fetched_def)
  then have "all_action rm allQuery w
           = Some (Inr (concat (map pages [0..<k])),
                   commit_all (concat (map pages [0..<k])) (w\<lparr>calls := calls w @ queried allQuery k\<rparr>))"
    by (simp add: all_action_def fetched_def queried_def)
  moreover have "length (queried allQuery k) = k"
    by (simp add: queried_def)
  moreover have "\<exists>q. queried allQuery k ! i = Get q
                    \<and> map_of q ''startAt'' = Some (QNum (i * MAX_DOCUMENTS_PER_QUERY))
                    \<and> map_of q ''limit'' = Some (QNum MAX_DOCUMENTS_PER_QUERY)" if "i < k" for i
    using that by (simp add: queried_def page_query_def update_conv')
  ultimately show ?thesis by blast
qed

theorem all_action_pages_witness:
  "(0::nat) < 2
   \<and> all_action paging [] \<lparr>documents = [], calls = []\<rparr>
     = Some (Inr (replicate 100 doc_A @ [doc_B]),
         commit_all (replicate 100 doc_A @ [doc_B])
           \<lparr>documents = [],
            calls = [Get [(''startAt'', QNum 0), (''limit'', QNum 100)],
                     Get [(''startAt'', QNum 100), (''limit'', QNum 100)]]\<rparr>)"
proof -
  let ?pages = "\<lambda>i::nat. if i = 0 then replicate 100 doc_A else [doc_B]"
  have two: "[0..<2] = [0, Suc 0]" by (simp add: upt_rec)
  have get: "documents_get paging (calls \<lparr>documents = [], calls = []\<rparr> @ queried [] i) (page_query [] i)
               = Some (?pages i)" if "i < 2" for i
    by (simp add: paging_def page_query_def MAX_DOCUMENTS_PER_QUERY_def)
  have continue: "Suc i * MAX_DOCUMENTS_PER_QUERY \<le> length (concat (map ?pages [0..<Suc i]))"
    if "Suc i < 2" for i
  proof -
    have "i = 0" using that by simp
    then show ?thesis by (simp add: MAX_DOCUMENTS_PER_QUERY_def)
  qed
  have stop: "length (concat (map ?pages [0..<2])) < 2 * MAX_DOCUMENTS_PER_QUERY"
    by (simp add: two MAX_DOCUMENTS_PER_QUERY_def)
  have k: "(0::nat) < 2" by simp
  from all_action_pages [of 2 paging "\<lparr>documents = [], calls = []\<rparr>" "[]" ?pages, OF k get continue stop]
  have "all_action paging [] \<lparr>documents = [], calls = []\<rparr>
     = Some (Inr (concat (map ?pages [0..<2])),
         commit_all (concat (map ?pages [0..<2]))
           (\<lparr>documents = [], calls = []\<rparr>\<lparr>calls := calls \<lparr>documents = [], calls = []\<rparr> @ queried [] 2\<rparr>))"
    by simp
  then show ?thesis
    by (simp add: two queried_def page_query_def MAX_DOCUMENTS_PER_QUERY_def)
qed

section \<open>The bulk-mutation planner\<close>

lemma items_at_push:
  "items_at (push key x ob) k = (if k = key then items_at ob key @ [x] else items_at ob k)"
  by (simp add: push_def items_at_def update_conv')

lemma one_action_Inr:
  assumes "one_action rm payload w = (Inr d, w1)"
  shows "\<exists>ds found. documents_get rm (calls w) [(''where'', QWhere [(''$id'', ''=='', payload)])] = Some ds
           \<and> head ds = Some found \<and> d = Some found"
  using assms
  by (auto simp: one_action_def retrieve_def commit_one_def Let_def
        split: option.splits sum.splits dest: sym)

lemma compose_eq:
  "compose rm item w = (Inr (documents_create rm (calls w) item), w\<lparr>calls := calls w @ [Create item]\<rparr>)"
  by (simp add: compose_def split: option.splits)

lemma plan_classified:
  assumes "plan rm items documents' w = (Inr planned, w1)"
  shows "\<exists>cs rs ds.
           items_at planned ''create'' = items_at documents' ''create'' @ cs
         \<and> items_at planned ''replace'' = items_at documents' ''replace'' @ rs
         \<and> items_at planned ''delete'' = items_at documents' ''delete'' @ ds
         \<and> list_all2 (composed rm) (filter (\<lambda>item. classify item = Create') items) cs
         \<and> list_all2 (updated rm) (filter (\<lambda>item. classify item = Replace) items) rs
         \<and> list_all2 (looked_up rm) (filter (\<lambda>item. classify item = Delete) items) ds"
  using assms
proof (induction items arbitrary: documents' w)
  case Nil
  then show ?case by simp
next
  case (Cons item items)
  show ?case
  proof (cases "classify item")
    case Delete
    then have is_del: "map fst item = [''$id'']" by (simp add: classify_def split: if_splits)
    obtain res w' where one: "one_action rm (id_of item) w = (res, w')" by (cases "one_action rm (id_of item) w")
    then obtain deleted where res: "res = Inr deleted"
      and rest: "plan rm items (push ''delete'' deleted documents') w' = (Inr planned, w1)"
      using Cons.prems is_del by (cases res) auto
    from Cons.IH [OF rest] obtain cs rs ds where
      IH: "items_at planned ''create'' = items_at (push ''delete'' deleted documents') ''create'' @ cs"
          "items_at planned ''replace'' = items_at (push ''delete'' deleted documents') ''replace'' @ rs"
          "items_at planned ''delete'' = items_at (push ''delete'' deleted documents') ''delete'' @ ds"
          "list_all2 (composed rm) (filter (\<lambda>item. classify item = Create') items) cs"
          "list_all2 (updated rm) (filter (\<lambda>item. classify item = Replace) items) rs"
          "list_all2 (looked_up rm) (filter (\<lambda>item. classify item = Delete) items) ds"
      by blast
    have "looked_up rm item deleted"
      using one_action_Inr [OF one [unfolded res]] by (auto simp: looked_up_def id_query_def)
    then show ?thesis using IH Delete
      by (intro exI [of _ cs] exI [of _ rs] exI [of _ "deleted # ds"]) (simp add: items_at_push)
  next
    case Replace
    then have not_del: "map fst item \<noteq> [''$id'']" and is_rep: "truthy (map_of item ''$id'')"
      by (simp_all add: classify_def split: if_splits)
    obtain res w' where one: "one_action rm (id_of item) w = (res, w')" by (cases "one_action rm (id_of item) w")
    let ?new = "\<lambda>found. Some (setData found (pickBy item (\<lambda>value key. \<not> startsWith key ''$'')))"
    obtain found where res: "res = Inr (Some found)"
      and rest: "plan rm items (push ''replace'' (?new found) documents') w' = (Inr planned, w1)"
      using Cons.prems not_del is_rep one by (cases res) (auto split: option.splits)
    from Cons.IH [OF rest] obtain cs rs ds where
      IH: "items_at planned ''create'' = items_at (push ''replace'' (?new found) documents') ''create'' @ cs"
          "items_at planned ''replace'' = items_at (push ''replace'' (?new found) documents') ''replace'' @ rs"
          "items_at planned ''delete'' = items_at (push ''replace'' (?new found) documents') ''delete'' @ ds"
          "list_all2 (composed rm) (filter (\<lambda>item. classify item = Create') items) cs"
          "list_all2 (updated rm) (filter (\<lambda>item. classify item = Replace) items) rs"
          "list_all2 (looked_up rm) (filter (\<lambda>item. classify item = Delete) items) ds"
      by blast
    have "updated rm item (?new found)"
      using one_action_Inr [OF one [unfolded res]]
      by (auto simp: updated_def id_query_def pickBy_def startsWith_def)
    then show ?thesis using IH Replace
      by (intro exI [of _ cs] exI [of _ "?new found # rs"] exI [of _ ds]) (simp add: items_at_push)
  next
    case Create'
    then have not_del: "map fst item \<noteq> [''$id'']" and not_rep: "\<not> truthy (map_of item ''$id'')"
      by (simp_all add: classify_def split: if_splits)
    let ?created = "documents_create rm (calls w) item"
    have rest: "plan rm items (push ''create'' ?created documents') (w\<lparr>calls := calls w @ [Create item]\<rparr>)
                  = (Inr planned, w1)"
      using Cons.prems not_del not_rep by (simp add: compose_eq)
    from Cons.IH [OF rest] obtain cs rs ds where
      IH: "items_at planned ''create'' = items_at (push ''create'' ?created documents') ''create'' @ cs"
          "items_at planned ''replace'' = items_at (push ''create'' ?created documents') ''replace'' @ rs"
          "items_at planned ''delete'' = items_at (push ''create'' ?created documents') ''delete'' @ ds"
          "list_all2 (composed rm) (filter (\<lambda>item. classify item = Create') items) cs"
          "list_all2 (updated rm) (filter (\<lambda>item. classify item = Replace) items) rs"
          "list_all2 (looked_up rm) (filter (\<lambda>item. classify item = Delete) items) ds"
      by blast
    have "composed rm item ?created" by (auto simp: composed_def)
    then show ?thesis using IH Create'
      by (intro exI [of _ "?created # cs"] exI [of _ rs] exI [of _ ds]) (simp add: items_at_push)
  qed
qed

text \<open>
  Claim C6 (classification). The planner treats the raw items in order. An item whose keys
  are exactly \<^verbatim>\<open>$id\<close> is looked up and planned for deletion; otherwise an item with a
  truthy \<^verbatim>\<open>$id\<close> is looked up and planned for replacement, with all fields of the raw
  item except those whose key starts with \<^verbatim>\<open>$\<close>; every other item is composed by the
  remote and planned for creation. Each of the three planned lists keeps the order of the
  raw items. The raw items \<^verbatim>\<open>[{$id: "A"}, {$id: "B", name: "x"}, {name: "y"}]\<close> give
  delete = [A], replace = [B with name x], create = [the document composed from name y].
\<close>

theorem plan_classification:
  assumes "plan rm items [(''create'', []), (''replace'', []), (''delete'', [])] w = (Inr planned, w1)"
  shows "list_all2 (composed rm) (filter (\<lambda>item. classify item = Create') items) (items_at planned ''create'')
       \<and> list_all2 (updated rm) (filter (\<lambda>item. classify item = Replace) items) (items_at planned ''replace'')
       \<and> list_all2 (looked_up rm) (filter (\<lambda>item. classify item = Delete) items) (items_at planned ''delete'')"
  using plan_classified [OF assms] by (simp add: items_at_def)

theorem plan_classification_witness:
  "plan accepting [[(''$id'', VStr ''A'')], [(''$id'', VStr ''B''), (''name'', VStr ''x'')], [(''name'', VStr ''y'')]]
      [(''create'', []), (''replace'', []), (''delete'', [])] \<lparr>documents = [], calls = []\<rparr>
     = (Inr [(''create'', [Some \<lparr>doc_id = ''y'', doc_data = [(''name'', VStr ''y'')]\<rparr>]),
             (''replace'', [Some \<lparr>doc_id = ''B'', doc_data = [(''name'', VStr ''x'')]\<rparr>]),
             (''delete'', [Some doc_A])],
        \<lparr>documents = [(''A'', toJSON doc_A), (''B'', toJSON doc_B)],
         calls = [Get [(''where'', QWhere [(''$id'', ''=='', VStr ''A'')])],
                  Get [(''where'', QWhere [(''$id'', ''=='', VStr ''B'')])],
                  Create [(''name'', VStr ''y'')]]\<rparr>)
   \<and> list_all2 (looked_up accepting) [[(''$id'', VStr ''A'')]] [Some doc_A]"
proof -
  have run: "plan accepting [[(''$id'', VStr ''A'')], [(''$id'', VStr ''B''), (''name'', VStr ''x'')], [(''name'', VStr ''y'')]]
      [(''create'', []), (''replace'', []), (''delete'', [])] \<lparr>documents = [], calls = []\<rparr>
     = (Inr [(''create'', [Some \<lparr>doc_id = ''y'', doc_data = [(''name'', VStr ''y'')]\<rparr>]),
             (''replace'', [Some \<lparr>doc_id = ''B'', doc_data = [(''name'', VStr ''x'')]\<rparr>]),
             (''delete'', [Some doc_A])],
        \<lparr>documents = [(''A'', toJSON doc_A), (''B'', toJSON doc_B)],
         calls = [Get [(''where'', QWhere [(''$id'', ''=='', VStr ''A'')])],
                  Get [(''where'', QWhere [(''$id'', ''=='', VStr ''B'')])],
                  Create [(''name'', VStr ''y'')]]\<rparr>)"
    by (simp add: one_action_def retrieve_def commit_one_def compose_def head_def id_of_def push_def
          items_at_def pickBy_def startsWith_def setData_def accepting_def ids_asked_def name_of_def
          doc_A_def doc_B_def doc_C_def toJSON_def)
  have "list_all2 (looked_up accepting) [[(''$id'', VStr ''A'')]] [Some doc_A]"
    using plan_classification [OF run] by (simp add: classify_def items_at_def)
  with run show ?thesis by (rule conjI)
qed

section \<open>The action \<^verbatim>\<open>multiple\<close> settles\<close>

lemma remainder_has_no_length:
  "map_of (snd (regulatePayload enc [(''items'', payload)])) ''length'' = None"
proof -
  have "fst ` set (snd (regulatePayload enc [(''items'', payload)]))
          = set (map fst (snd (regulatePayload enc [(''items'', payload)])))"
    by simp
  also have "\<dots> = {''items''}"
    by (simp only: regulatePayload_keys) simp
  finally show ?thesis by (simp add: map_of_eq_None_iff)
qed









section \<open>Failures while planning\<close>











section \<open>The remainder of \<^verbatim>\<open>multiple\<close>\<close>

lemma broadcast_one_created:
  "broadcast accepting (\<lambda>json. 3000) eg depth [(''create'', [Some d]), (''replace'', []), (''delete'', [])] w
     = Some (Inr True, w\<lparr>calls := calls w @ [Broadcast [(''create'', [Some d]), (''replace'', []), (''delete'', [])]]\<rparr>)"
  by (subst broadcast.simps)
     (simp add: regulatePayload_def regulate_item_eval items_at_def enc_doc_def any_length_def
        accepting_def)

lemma regulate_two_large:
  "regulatePayload (\<lambda>json. 3000) [(''items'', [a, b])] = ([(''items'', [a])], [(''items'', [b])])"
  by (simp add: regulatePayload_def regulate_item_eval items_at_def)

text \<open>
  Claim C4 says that \<^verbatim>\<open>multiple\<close> recurses on the remainder once the broadcast of the
  included items has succeeded. The source guards the recursion by \<^verbatim>\<open>remainder.length\<close>,
  and \<^verbatim>\<open>remainder\<close> is the object \<^verbatim>\<open>{items: [...]}\<close>, which has no such property for
  any payload. With two raw items of 3000 bytes each the second one is cut off by the
  regulator; the action composes, broadcasts and commits the first, and returns true
  without ever processing the second.
\<close>

theorem multiple_drops_remainder:
  "multiple accepting (\<lambda>json. 3000) eg [[(''name'', VStr ''x'')], [(''name'', VStr ''y'')]]
     \<lparr>documents = [], calls = []\<rparr>
   = Some (Inr (Boolean True),
       \<lparr>documents = [(''x'', [(''$id'', VStr ''x''), (''name'', VStr ''x'')])],
        calls = [Create [(''name'', VStr ''x'')],
                 Broadcast [(''create'', [Some \<lparr>doc_id = ''x'', doc_data = [(''name'', VStr ''x'')]\<rparr>]),
                            (''replace'', []), (''delete'', [])]]\<rparr>)
   \<and> (\<forall>enc payload. map_of (snd (regulatePayload enc [(''items'', payload)])) ''length'' = None)"
proof
  have plan1: "plan accepting [[(''name'', VStr ''x'')]] [(''create'', []), (''replace'', []), (''delete'', [])]
                 \<lparr>documents = [], calls = []\<rparr>
               = (Inr [(''create'', [Some \<lparr>doc_id = ''x'', doc_data = [(''name'', VStr ''x'')]\<rparr>]),
                       (''replace'', []), (''delete'', [])],
                  \<lparr>documents = [], calls = [Create [(''name'', VStr ''x'')]]\<rparr>)"
    by (simp add: compose_def accepting_def name_of_def push_def items_at_def)
  show "multiple accepting (\<lambda>json. 3000) eg [[(''name'', VStr ''x'')], [(''name'', VStr ''y'')]]
     \<lparr>documents = [], calls = []\<rparr>
   = Some (Inr (Boolean True),
       \<lparr>documents = [(''x'', [(''$id'', VStr ''x''), (''name'', VStr ''x'')])],
        calls = [Create [(''name'', VStr ''x'')],
                 Broadcast [(''create'', [Some \<lparr>doc_id = ''x'', doc_data = [(''name'', VStr ''x'')]\<rparr>]),
                            (''replace'', []), (''delete'', [])]]\<rparr>)"
    by (subst multiple.simps)
       (simp add: regulate_two_large items_at_def plan1 broadcast_one_created commit_one_def toJSON_def
          del: plan.simps)
  show "\<forall>enc payload. map_of (snd (regulatePayload enc [(''items'', payload)])) ''length'' = None"
    by (simp add: remainder_has_no_length)
qed

section \<open>Exceptions at the boundary of the actions\<close>












section \<open>The initialisation triggers\<close>

lemma account_getter_twice: "snd (account_getter (snd (account_getter s))) = snd (account_getter s)"
  by (simp add: account_getter_def accountInit_dispatch_def split: option.splits)

lemma identity_getter_twice: "snd (identity_getter (snd (identity_getter s))) = snd (identity_getter s)"
  by (simp add: identity_getter_def identityInit_dispatch_def split: option.splits)

lemma reads_account:
  "foldl step s (replicate n ReadAccount) = (if n = 0 then s else snd (account_getter s))"
proof (induction n arbitrary: s)
  case 0
  show ?case by simp
next
  case (Suc n)
  show ?case by (simp add: Suc.IH account_getter_twice)
qed

lemma reads_identity:
  "foldl step s (replicate n ReadIdentity) = (if n = 0 then s else snd (identity_getter s))"
proof (induction n arbitrary: s)
  case 0
  show ?case by simp
next
  case (Suc n)
  show ?case by (simp add: Suc.IH identity_getter_twice)
qed

lemma account_scenario:
  assumes "truthy (mnemonic s)" "0 < n"
  shows "remote_fetches (run (replicate n ReadAccount @ AccountSettled r t # replicate m ReadAccount) (init_action s))
           = remote_fetches s @ [GetWalletAccount]"
    and "stamps (run (replicate n ReadAccount @ AccountSettled r t # replicate m ReadAccount) (init_action s))
           = stamps s @ (case r of None \<Rightarrow> [] | Some a \<Rightarrow> [(Account, t)])"
  using assms
  by (auto simp: run_def reads_account init_action_def account_getter_def
        accountInit_dispatch_def accountInit_settle_def stamped_def split: option.splits)

lemma identity_scenario:
  assumes "truthy (identityId s)" "0 < n"
  shows "remote_fetches (run (replicate n ReadIdentity @ IdentitySettled r t # replicate m ReadIdentity) (init_action s))
           = remote_fetches s @ [IdentitiesGet (identityId s)]"
    and "stamps (run (replicate n ReadIdentity @ IdentitySettled r t # replicate m ReadIdentity) (init_action s))
           = stamps s @ (case r of None \<Rightarrow> [] | Some a \<Rightarrow> [(Identity, t)])"
  using assms
  by (auto simp: run_def reads_identity init_action_def identity_getter_def
        identityInit_dispatch_def identityInit_settle_def stamped_def split: option.splits)

text \<open>
  Claim C8 says that calling an armed trigger more than once makes exactly one remote fetch
  and exactly one Synced stamp. The stamp is committed only when the fetch succeeds: when
  it throws, the handler of \<^verbatim>\<open>accountInit\<close> logs and nothing is stamped. Two reads of
  the account getter and a fetch that throws give one fetch and no stamp.
\<close>

theorem failed_fetch_not_stamped:
  "remote_fetches (run [ReadAccount, ReadAccount, AccountSettled None 1700, ReadAccount] (init_action fresh))
     = [GetWalletAccount]
   \<and> stamps (run [ReadAccount, ReadAccount, AccountSettled None 1700, ReadAccount] (init_action fresh)) = []
   \<and> accountSynced (run [ReadAccount, ReadAccount, AccountSettled None 1700, ReadAccount] (init_action fresh))
     = None"
  by (simp add: run_def fresh_def init_action_def account_getter_def accountInit_dispatch_def
        accountInit_settle_def stamped_def)

text \<open>
  Claim C8 as amended. For the account and for the identity, after \<^verbatim>\<open>init\<close> has armed the
  trigger, any number \<open>n > 0\<close> of reads of the getter, the settling of the fetch and any
  number of further reads make exactly one remote fetch, and exactly one Synced stamp if
  the fetch succeeds and none if it throws. Reading a getter twice in a row leaves the
  state that reading it once leaves, and \<^verbatim>\<open>init\<close> installs one trigger per resource, not
  yet called.
\<close>

theorem trigger_single_execution:
  fixes s :: "('a, 'i) root"
  assumes "truthy (mnemonic s)" "truthy (identityId s)" "0 < n"
  shows "remote_fetches (run (replicate n ReadAccount @ AccountSettled a t # replicate m ReadAccount)
                           (init_action s))
           = remote_fetches s @ [GetWalletAccount]
       \<and> stamps (run (replicate n ReadAccount @ AccountSettled a t # replicate m ReadAccount)
                           (init_action s))
           = stamps s @ (case a of None \<Rightarrow> [] | Some acc \<Rightarrow> [(Account, t)])
       \<and> remote_fetches (run (replicate n ReadIdentity @ IdentitySettled i t # replicate m ReadIdentity)
                           (init_action s))
           = remote_fetches s @ [IdentitiesGet (identityId s)]
       \<and> stamps (run (replicate n ReadIdentity @ IdentitySettled i t # replicate m ReadIdentity)
                           (init_action s))
           = stamps s @ (case i of None \<Rightarrow> [] | Some idn \<Rightarrow> [(Identity, t)])
       \<and> (\<forall>s' :: ('a, 'i) root. step (step s' ReadAccount) ReadAccount = step s' ReadAccount)
       \<and> (\<forall>s' :: ('a, 'i) root. step (step s' ReadIdentity) ReadIdentity = step s' ReadIdentity)
       \<and> accountInit (init_action s) = Some False
       \<and> identityInit (init_action s) = Some False"
  using account_scenario [OF assms(1,3), of a t m] identity_scenario [OF assms(2,3), of i t m] assms(1,2)
  by (simp add: account_getter_twice identity_getter_twice init_action_def)

theorem trigger_single_execution_witness:
  "truthy (mnemonic fresh) \<and> truthy (identityId fresh) \<and> (0::nat) < 3
   \<and> remote_fetches (run (replicate 3 ReadAccount @ AccountSettled (Some ''wallet'') 1700 # replicate 2 ReadAccount)
                        (init_action fresh))
       = [GetWalletAccount]
   \<and> stamps (run (replicate 3 ReadAccount @ AccountSettled (Some ''wallet'') 1700 # replicate 2 ReadAccount)
                        (init_action fresh))
       = [(Account, 1700)]"
proof -
  have armed: "truthy (mnemonic fresh)" "truthy (identityId fresh)"
    by (simp_all add: fresh_def)
  have before: "remote_fetches fresh = []" "stamps fresh = []"
    by (simp_all add: fresh_def)
  have n: "(0::nat) < 3" by simp
  show ?thesis
    using armed trigger_single_execution [OF armed n, of "Some ''wallet''" 1700 2 None]
    by (simp add: before)
qed

end
